theory Spec2Isabelle
  imports Complex_Main "HOL-Library.Sublist"
begin

section \<open>Values, documents and responses\<close>

text \<open>
  The values that travel through the two request handlers are JSON-like JavaScript values.
  \<open>JObj\<close> stands for every value with an identity of its own (objects, arrays);
  \<open>JNum\<close> carries the numbers, none of which the code computes with.
  Strings are lists of characters; \<open>length\<close> is the \<open>.length\<close> of the string.
\<close>

datatype js_value =
    JUndefined
  | JNull
  | JBool bool
  | JNum int
  | JStr string
  | JObj "(string \<times> js_value) list"

type_synonym js_object = "(string \<times> js_value) list"

text \<open>JavaScript truthiness, as tested by \<open>!x\<close> and \<open>if (x)\<close>.\<close>

fun truthy :: "js_value \<Rightarrow> bool" where
  "truthy JUndefined = False"
| "truthy JNull = False"
| "truthy (JBool b) = b"
| "truthy (JNum n) = (n \<noteq> 0)"
| "truthy (JStr s) = (s \<noteq> [])"
| "truthy (JObj _) = True"

text \<open>Reading a property: an absent key reads as \<open>undefined\<close>.\<close>

definition get_prop :: "js_object \<Rightarrow> string \<Rightarrow> js_value" where
  "get_prop obj k = (case map_of obj k of None \<Rightarrow> JUndefined | Some v \<Rightarrow> v)"

text \<open>Reading a property of an arbitrary value: only objects have own properties here.\<close>

fun prop_of :: "js_value \<Rightarrow> string \<Rightarrow> js_value" where
  "prop_of (JObj obj) k = get_prop obj k"
| "prop_of _ k = JUndefined"

text \<open>
  Assignment \<open>obj.k = v\<close>: an existing key keeps its place, a new key goes last.
  \<open>delete obj.k\<close> removes the key. The spread \<open>{...a, ...b}\<close> assigns the properties of
  \<open>b\<close>, in order, onto a copy of \<open>a\<close>. (A JavaScript object lists keys that look like
  array indices before the others; the order of keys is kept here as a record of the
  assignments only, and properties are read through \<open>get_prop\<close>.)
\<close>

fun set_prop :: "string \<Rightarrow> js_value \<Rightarrow> js_object \<Rightarrow> js_object" where
  "set_prop k v [] = [(k, v)]"
| "set_prop k v ((k', v') # obj) =
     (if k' = k then (k', v) # obj else (k', v') # set_prop k v obj)"

definition delete_prop :: "string \<Rightarrow> js_object \<Rightarrow> js_object" where
  "delete_prop k obj = filter (\<lambda>(k', _). k' \<noteq> k) obj"

definition spread :: "js_object \<Rightarrow> js_object \<Rightarrow> js_object" where
  "spread a b = fold (\<lambda>(k, v). set_prop k v) b a"

record document =
  pageContent :: string
  metadata :: js_object

text \<open>
  An embedding is an array of numbers that the code only passes on.
  \<open>vec_values\<close> (the field \<open>values\<close>) is \<open>None\<close> where the source reads \<open>embeddings[index]\<close> past the end
  of the array and gets \<open>undefined\<close>.
\<close>

type_synonym embedding = "rat list"

record vector =
  vec_id :: js_value
  vec_values :: "embedding option"
  vec_metadata :: js_object

text \<open>A thrown error object: its \<open>message\<close> and its \<open>code\<close> (absent on a plain \<open>Error\<close>).\<close>

datatype js_error = JsError (message: string) (code: "string option")

definition new_Error :: "string \<Rightarrow> js_error" where
  "new_Error msg = JsError msg None"

datatype body =
    SuccessBody
  | ErrorBody string
  | ResultsBody "document list"

record response =
  body :: body
  status :: nat

definition NextResponse_json :: "body \<Rightarrow> nat \<Rightarrow> response" where
  "NextResponse_json b s = \<lparr>body = b, status = s\<rparr>"

section \<open>The outside world\<close>

text \<open>
  Every request that leaves the process is recorded, in order, in \<open>trace\<close>.
  \<open>upserted\<close> holds the groups of vectors the vector store has accepted, \<open>console\<close>
  the entries written by \<open>console.error\<close> and \<open>console.warn\<close> (progress messages of
  \<open>console.log\<close> are left out), and \<open>uuids\<close> counts the identifiers drawn from
  \<open>uuidv4\<close>.
\<close>

record mmr_options =
  mmr_k :: nat
  mmr_fetchK :: nat
  mmr_lambda :: rat

datatype event =
    CreateIndexIfNecessary js_value
  | PineconeIndexHasVectors js_value
  | LoaderLoad
  | ReadFile
  | SplitDocuments "document list"
  | EmbedDocuments "string list"
  | Upsert js_value "vector list"
  | MaxMarginalRelevanceSearch js_value mmr_options
  | Sleep nat

datatype log_entry =
    SearchError js_error
  | MetadataWarning js_error
  | NoEmbeddings
  | BatchError nat js_error
  | BootstrapError js_error

record world =
  trace :: "event list"
  upserted :: "vector list list"
  console :: "log_entry list"
  uuids :: nat

definition emit :: "event \<Rightarrow> world \<Rightarrow> world" where
  "emit ev w = w\<lparr>trace := trace w @ [ev]\<rparr>"

definition console_error :: "log_entry \<Rightarrow> world \<Rightarrow> world" where
  "console_error l w = w\<lparr>console := console w @ [l]\<rparr>"

text \<open>
  The environment variables and the answers of the external services and libraries are
  parameters of the model. A service answers with a value or throws (an error in \<open>Inl\<close>,
  or \<open>Some\<close> error where nothing is returned), and its answer depends on the arguments
  of the call only.
  \<open>createIndexIfNecessary\<close> and \<open>pineconeIndexHasVectors\<close> are helpers of another
  module; the loaders, the text splitter, the embeddings client and the index client are
  libraries. \<open>db_json\<close> is what reading and parsing \<open>docs/db.json\<close> gives: an error, or
  the \<open>documents\<close> property if it is there. \<open>uuidv4 n\<close> is the identifier drawn after
  \<open>n\<close> others. \<open>new_VoyageEmbeddings\<close> is the outcome of constructing the embeddings
  client in the ingestion service, where the key it is given has not been checked; the other
  constructors make no request and are taken to return.
\<close>

record env =
  PINECONE_API_KEY :: "string option"
  PINECONE_INDEX :: "string option"
  VOYAGE_API_KEY :: "string option"
  createIndexIfNecessary :: "js_value \<Rightarrow> js_error option"
  pineconeIndexHasVectors :: "js_value \<Rightarrow> js_error + bool"
  loader_load :: "js_error + document list"
  db_json :: "js_error + js_object list option"
  splitDocuments :: "document list \<Rightarrow> js_error + document list"
  uuidv4 :: "nat \<Rightarrow> string"
  new_VoyageEmbeddings :: "js_error option"
  embedDocuments :: "string list \<Rightarrow> js_error + embedding list option"
  index_upsert :: "js_value \<Rightarrow> vector list \<Rightarrow> js_error option"
  maxMarginalRelevanceSearch :: "js_value \<Rightarrow> mmr_options \<Rightarrow> js_error + document list"

text \<open>\<open>!process.env.X\<close>: the variable is unset or the empty string.\<close>

definition unset :: "string option \<Rightarrow> bool" where
  "unset v = (case v of None \<Rightarrow> True | Some s \<Rightarrow> s = [])"

section \<open>The search route\<close>

text \<open>
  A \<open>Map\<close> keeps its entries in insertion order. Setting a key that is already present
  replaces the value and leaves the entry where it is. Keys are compared by SameValueZero:
  strings, numbers, booleans, \<open>null\<close> and \<open>undefined\<close> by value, objects by identity,
  and the titles of two retrieved items are never the same object.
\<close>

fun is_object :: "js_value \<Rightarrow> bool" where
  "is_object (JObj _) = True"
| "is_object _ = False"

definition same_key :: "js_value \<Rightarrow> js_value \<Rightarrow> bool" where
  "same_key a b = (\<not> is_object a \<and> a = b)"

fun Map_set :: "js_value \<Rightarrow> 'v \<Rightarrow> (js_value \<times> 'v) list \<Rightarrow> (js_value \<times> 'v) list" where
  "Map_set key v [] = [(key, v)]"
| "Map_set key v ((key', v') # es) =
     (if same_key key' key then (key', v) # es else (key', v') # Map_set key v es)"

definition new_Map :: "(js_value \<times> 'v) list \<Rightarrow> (js_value \<times> 'v) list" where
  "new_Map entries = fold (\<lambda>(key, v). Map_set key v) entries []"

definition Map_values :: "(js_value \<times> 'v) list \<Rightarrow> 'v list" where
  "Map_values m = map snd m"

definition title :: "document \<Rightarrow> js_value" where
  "title item = get_prop (metadata item) ''title''"

definition uniqueResults :: "document list \<Rightarrow> document list" where
  "uniqueResults retrieved = Map_values (new_Map (map (\<lambda>item. (title item, item)) retrieved))"

definition search_options :: mmr_options where
  "search_options = \<lparr>mmr_k = 20, mmr_fetchK = 100, mmr_lambda = 1 / 2\<rparr>"

text \<open>The body of the \<open>try\<close> block: the thrown error, or the response.\<close>

definition search_try :: "env \<Rightarrow> js_value \<Rightarrow> world \<Rightarrow> (js_error + response) \<times> world" where
  "search_try e query w =
     (if unset (PINECONE_API_KEY e) then (Inl (new_Error ''PINECONE_API_KEY is not defined''), w)
      else if unset (PINECONE_INDEX e) then (Inl (new_Error ''PINECONE_INDEX is not defined''), w)
      else if unset (VOYAGE_API_KEY e) then (Inl (new_Error ''VOYAGE_API_KEY is not defined''), w)
      else
        let w1 = emit (MaxMarginalRelevanceSearch query search_options) w in
        case maxMarginalRelevanceSearch e query search_options of
          Inl err \<Rightarrow> (Inl err, w1)
        | Inr retrieved \<Rightarrow>
            (Inr (NextResponse_json (ResultsBody (uniqueResults retrieved)) 200), w1))"

definition search_POST :: "env \<Rightarrow> js_value \<Rightarrow> world \<Rightarrow> response \<times> world" where
  "search_POST e query w =
     (if \<not> truthy query then (NextResponse_json (ErrorBody ''Query is required'') 400, w)
      else
        case search_try e query w of
          (Inr r, w') \<Rightarrow> (r, w')
        | (Inl err, w') \<Rightarrow>
            (NextResponse_json (ErrorBody ''Error searching for query'') 500,
             console_error (SearchError err) w'))"

section \<open>The ingestion service\<close>

subsection \<open>Content validation\<close>

text \<open>
  \<open>String.prototype.trim\<close> removes white space and line terminators from both ends.
  Of these, the characters of the model's alphabet are tab, line feed, vertical tab, form
  feed, carriage return, space and the no-break space.
\<close>

definition isWhiteSpace :: "char \<Rightarrow> bool" where
  "isWhiteSpace c =
     (let n = (of_char c :: nat) in (9 \<le> n \<and> n \<le> 13) \<or> n = 32 \<or> n = 160)"

definition trim :: "string \<Rightarrow> string" where
  "trim s = rev (dropWhile isWhiteSpace (rev (dropWhile isWhiteSpace s)))"

definition isValidContent :: "string \<Rightarrow> bool" where
  "isValidContent content =
     (if content = [] then False
      else let trimmed = trim content in 0 < length trimmed \<and> length trimmed < 8192)"

subsection \<open>Metadata\<close>

definition readMetadata :: "env \<Rightarrow> world \<Rightarrow> js_object list \<times> world" where
  "readMetadata e w =
     (let w1 = emit ReadFile w in
      case db_json e of
        Inl err \<Rightarrow> ([], console_error (MetadataWarning err) w1)
      | Inr None \<Rightarrow> ([], w1)
      | Inr (Some documents) \<Rightarrow> (documents, w1))"

definition flattenMetadata :: "js_object \<Rightarrow> js_object" where
  "flattenMetadata md =
     (let flat0 = spread [] md;
          flat1 =
            (if truthy (get_prop flat0 ''pdf'') then
               delete_prop ''pdf''
                 (if truthy (prop_of (get_prop flat0 ''pdf'') ''pageCount'')
                  then set_prop ''totalPages'' (prop_of (get_prop flat0 ''pdf'') ''pageCount'') flat0
                  else flat0)
             else flat0)
      in if truthy (get_prop flat1 ''loc'') then delete_prop ''loc'' flat1 else flat1)"

text \<open>
  \<open>path.basename\<close> on a POSIX path: the last segment, trailing separators ignored.
  It throws a \<open>TypeError\<close> with the code \<open>ERR_INVALID_ARG_TYPE\<close> when its argument is
  not a string; the message of that error is abridged here.
\<close>

definition path_basename :: "string \<Rightarrow> string" where
  "path_basename p =
     rev (takeWhile (\<lambda>c. c \<noteq> CHR ''/'') (dropWhile (\<lambda>c. c = CHR ''/'') (rev p)))"

definition basename_of :: "js_value \<Rightarrow> js_error + string" where
  "basename_of v =
     (case v of
        JStr p \<Rightarrow> Inr (path_basename p)
      | _ \<Rightarrow> Inl (JsError ''The path argument must be of type string'' (Some ''ERR_INVALID_ARG_TYPE'')))"

text \<open>\<open>metadata.find(meta => meta.filename === path.basename(doc.metadata.source))\<close>\<close>

fun find_metadata :: "js_object list \<Rightarrow> js_value \<Rightarrow> js_error + js_object option" where
  "find_metadata [] source = Inr None"
| "find_metadata (meta # rest) source =
     (case basename_of source of
        Inl err \<Rightarrow> Inl err
      | Inr b \<Rightarrow>
          if get_prop meta ''filename'' = JStr b then Inr (Some meta)
          else find_metadata rest source)"

text \<open>The \<open>forEach\<close> that merges the side file's record into each valid document.\<close>

fun merge_metadata :: "js_object list \<Rightarrow> document list \<Rightarrow> js_error + document list" where
  "merge_metadata md [] = Inr []"
| "merge_metadata md (doc # docs) =
     (case find_metadata md (get_prop (metadata doc) ''source'') of
        Inl err \<Rightarrow> Inl err
      | Inr found \<Rightarrow>
          (let doc' =
             (case found of
                None \<Rightarrow> doc
              | Some fileMetadata \<Rightarrow>
                  doc\<lparr>metadata :=
                        set_prop ''pageContent'' (JStr (pageContent doc))
                          (spread (spread [] (metadata doc)) fileMetadata)\<rparr>)
           in case merge_metadata md docs of
                Inl err \<Rightarrow> Inl err
              | Inr docs' \<Rightarrow> Inr (doc' # docs')))"

subsection \<open>Batched upserts\<close>

text \<open>\<open>xs.slice(a, b)\<close> for indices \<open>0 \<le> a \<le> b\<close>.\<close>

definition slice :: "'a list \<Rightarrow> nat \<Rightarrow> nat \<Rightarrow> 'a list" where
  "slice xs a b = take (b - a) (drop a xs)"

text \<open>
  The loop of \<open>batchUpserts\<close>, entered at index \<open>i\<close>. The result is \<open>None\<close> when the loop
  never exits; otherwise it carries the error thrown by \<open>index.upsert\<close>, if any, and the
  world reached. A rejected group is requested but not stored.
\<close>

partial_function (option) batchUpserts_from ::
  "env \<Rightarrow> js_value \<Rightarrow> vector list \<Rightarrow> nat \<Rightarrow> nat \<Rightarrow> world \<Rightarrow> (js_error option \<times> world) option" where
  "batchUpserts_from e index vectors batchSize i w =
     (if i < length vectors then
        (case index_upsert e index (slice vectors i (i + batchSize)) of
           Some err \<Rightarrow> Some (Some err, emit (Upsert index (slice vectors i (i + batchSize))) w)
         | None \<Rightarrow>
             batchUpserts_from e index vectors batchSize (i + batchSize)
               ((emit (Upsert index (slice vectors i (i + batchSize))) w)
                  \<lparr>upserted := upserted w @ [slice vectors i (i + batchSize)]\<rparr>))
      else Some (None, w))"

declare batchUpserts_from.simps [code]

definition batchUpserts ::
  "env \<Rightarrow> js_value \<Rightarrow> vector list \<Rightarrow> nat \<Rightarrow> world \<Rightarrow> (js_error option \<times> world) option" where
  "batchUpserts e index vectors batchSize w = batchUpserts_from e index vectors batchSize 0 w"

subsection \<open>The bootstrapping procedure\<close>

definition BATCH_SIZE :: nat where
  "BATCH_SIZE = 5"

text \<open>
  \<open>castedBatch\<close>: each split is trimmed, its metadata flattened and given a fresh
  identifier; \<open>n\<close> is the number of identifiers drawn before.
\<close>

fun cast_batch :: "env \<Rightarrow> document list \<Rightarrow> nat \<Rightarrow> document list" where
  "cast_batch e [] n = []"
| "cast_batch e (split # rest) n =
     \<lparr>pageContent = trim (pageContent split),
      metadata =
        set_prop ''pageContent'' (JStr (trim (pageContent split)))
          (set_prop ''id'' (JStr (uuidv4 e n))
             (spread [] (flattenMetadata (metadata split))))\<rparr>
     # cast_batch e rest (Suc n)"

definition make_vectors :: "document list \<Rightarrow> embedding list \<Rightarrow> vector list" where
  "make_vectors castedBatch embeddings =
     map (\<lambda>(index, split).
            \<lparr>vec_id = get_prop (metadata split) ''id'',
             vec_values = (if index < length embeddings then Some (embeddings ! index) else None),
             vec_metadata = metadata split\<rparr>)
         (enumerate 0 castedBatch)"

text \<open>
  The inner \<open>try\<close> block of one batch. The first component of the result is the error
  thrown inside the block, if any; \<open>None\<close> covers both the normal end of the block and
  its \<open>continue\<close>.
\<close>

definition batch_try ::
  "env \<Rightarrow> js_value \<Rightarrow> document list \<Rightarrow> world \<Rightarrow> (js_error option \<times> world) option" where
  "batch_try e targetIndex castedBatch w =
     (let pageContents = map pageContent castedBatch;
          texts = map trim pageContents;
          w1 = emit (EmbedDocuments texts) w
      in case embedDocuments e texts of
           Inl err \<Rightarrow> Some (Some err, w1)
         | Inr None \<Rightarrow> Some (None, console_error NoEmbeddings w1)
         | Inr (Some embeddings) \<Rightarrow>
             if length embeddings = 0 then Some (None, console_error NoEmbeddings w1)
             else if unset (PINECONE_API_KEY e)
             then Some (Some (new_Error ''PINECONE_API_KEY environment variable is not set''), w1)
             else
               (case batchUpserts e targetIndex (make_vectors castedBatch embeddings) 2 w1 of
                  None \<Rightarrow> None
                | Some (Some err, w2) \<Rightarrow> Some (Some err, w2)
                | Some (None, w2) \<Rightarrow> Some (None, emit (Sleep 1000) w2)))"

text \<open>
  One turn of the main loop, for the batch that starts at index \<open>i\<close>. The first component
  of the result is an error that leaves the loop (the embeddings client is constructed
  outside the inner \<open>try\<close>); an error thrown inside the inner \<open>try\<close> is caught here.
\<close>

definition bootstrap_batch ::
  "env \<Rightarrow> js_value \<Rightarrow> document list \<Rightarrow> nat \<Rightarrow> world \<Rightarrow> (js_error option \<times> world) option" where
  "bootstrap_batch e targetIndex splits i w =
     (let batch = slice splits i (i + BATCH_SIZE);
          validBatch = filter (\<lambda>split. isValidContent (pageContent split)) batch
      in if length validBatch = 0 then Some (None, w)
         else
           let castedBatch = cast_batch e validBatch (uuids w);
               w1 = w\<lparr>uuids := uuids w + length validBatch\<rparr>
           in case new_VoyageEmbeddings e of
                Some err \<Rightarrow> Some (Some err, w1)
              | None \<Rightarrow>
                  (case batch_try e targetIndex castedBatch w1 of
                     None \<Rightarrow> None
                   | Some (None, w2) \<Rightarrow> Some (None, w2)
                   | Some (Some err, w2) \<Rightarrow>
                       Some (None,
                         emit (Sleep 2000)
                           (console_error (BatchError (i div BATCH_SIZE + 1) err) w2))))"

function bootstrap_loop ::
  "env \<Rightarrow> js_value \<Rightarrow> document list \<Rightarrow> nat \<Rightarrow> world \<Rightarrow> (js_error option \<times> world) option" where
  "bootstrap_loop e targetIndex splits i w =
     (if i < length splits then
        (case bootstrap_batch e targetIndex splits i w of
           None \<Rightarrow> None
         | Some (Some err, w') \<Rightarrow> Some (Some err, w')
         | Some (None, w') \<Rightarrow> bootstrap_loop e targetIndex splits (i + BATCH_SIZE) w')
      else Some (None, w))"
  by pat_completeness auto
termination
  by (relation "measure (\<lambda>(e, targetIndex, splits, i, w). length splits - i)")
     (auto simp: BATCH_SIZE_def)

declare bootstrap_loop.simps [simp del]

text \<open>What follows the loading of the documents, inside the outer \<open>try\<close>.\<close>

definition bootstrap_documents ::
  "env \<Rightarrow> js_value \<Rightarrow> document list \<Rightarrow> world \<Rightarrow> ((js_error + response) \<times> world) option" where
  "bootstrap_documents e targetIndex documents w =
     (if length documents = 0
      then Some (Inr (NextResponse_json (ErrorBody ''No documents found in the docs directory'') 400), w)
      else
        case readMetadata e w of
          (md, w1) \<Rightarrow>
            (case merge_metadata md (filter (\<lambda>doc. isValidContent (pageContent doc)) documents) of
               Inl err \<Rightarrow> Some (Inl err, w1)
             | Inr validDocuments \<Rightarrow>
                 (case splitDocuments e validDocuments of
                    Inl err \<Rightarrow> Some (Inl err, emit (SplitDocuments validDocuments) w1)
                  | Inr splits \<Rightarrow>
                      (case bootstrap_loop e targetIndex splits 0
                              (emit (SplitDocuments validDocuments) w1) of
                         None \<Rightarrow> None
                       | Some (Some err, w2) \<Rightarrow> Some (Inl err, w2)
                       | Some (None, w2) \<Rightarrow> Some (Inr (NextResponse_json SuccessBody 200), w2)))))"

text \<open>The outer \<open>try\<close> block: the thrown error, or the response returned.\<close>

definition bootstrap_try ::
  "env \<Rightarrow> js_value \<Rightarrow> world \<Rightarrow> ((js_error + response) \<times> world) option" where
  "bootstrap_try e targetIndex w =
     (let w1 = emit (CreateIndexIfNecessary targetIndex) w;
          w2 = emit (PineconeIndexHasVectors targetIndex) w1;
          w3 = emit LoaderLoad w2
      in case createIndexIfNecessary e targetIndex of
           Some err \<Rightarrow> Some (Inl err, w1)
         | None \<Rightarrow>
             (case pineconeIndexHasVectors e targetIndex of
                Inl err \<Rightarrow> Some (Inl err, w2)
              | Inr hasVectors \<Rightarrow>
                  if hasVectors then Some (Inr (NextResponse_json SuccessBody 200), w2)
                  else
                    (case loader_load e of
                       Inl err \<Rightarrow> Some (Inl err, w3)
                     | Inr documents \<Rightarrow> bootstrap_documents e targetIndex documents w3)))"

definition handleBootstrapping ::
  "env \<Rightarrow> js_value \<Rightarrow> world \<Rightarrow> (response \<times> world) option" where
  "handleBootstrapping e targetIndex w =
     (case bootstrap_try e targetIndex w of
        None \<Rightarrow> None
      | Some (Inr r, w') \<Rightarrow> Some (r, w')
      | Some (Inl err, w') \<Rightarrow>
          if code err = Some ''UND_ERR_CONNECT_TIMEOUT''
          then Some (NextResponse_json (ErrorBody ''Operation timed out - please try again'') 504,
                     console_error (BootstrapError err) w')
          else Some (NextResponse_json (ErrorBody ''Bootstrap procedure failed'') 500,
                     console_error (BootstrapError err) w'))"

section \<open>The ingest route\<close>

text \<open>The route awaits \<open>handleBootstrapping\<close> and then builds its own response.\<close>

definition ingest_POST :: "env \<Rightarrow> js_value \<Rightarrow> world \<Rightarrow> (response \<times> world) option" where
  "ingest_POST e targetIndex w =
     (case handleBootstrapping e targetIndex w of
        None \<Rightarrow> None
      | Some (r, w') \<Rightarrow> Some (NextResponse_json SuccessBody 200, w'))"

section \<open>Notions used in the statements and proofs\<close>

text \<open>The elements of a list in the order in which each is first seen.\<close>

definition first_seen :: "'a list \<Rightarrow> 'a list" where
  "first_seen ks = rev (remdups (rev ks))"

text \<open>
  \<open>extends_by E V w w'\<close>: the world \<open>w'\<close> is \<open>w\<close> with further requests, each satisfying
  \<open>E\<close>, and further stored groups, each requested by one of these requests and made of
  vectors satisfying \<open>V\<close>.
\<close>

definition extends_by :: "(event \<Rightarrow> bool) \<Rightarrow> (vector \<Rightarrow> bool) \<Rightarrow> world \<Rightarrow> world \<Rightarrow> bool" where
  "extends_by E V w w' =
     (\<exists>evs gs. trace w' = trace w @ evs \<and> upserted w' = upserted w @ gs
        \<and> (\<forall>ev \<in> set evs. E ev)
        \<and> (\<forall>g \<in> set gs. (\<exists>index. Upsert index g \<in> set evs) \<and> (\<forall>v \<in> set g. V v)))"

text \<open>A vector that carries the trimmed text of a valid chunk among \<open>splits\<close>.\<close>

definition vector_from :: "document list \<Rightarrow> vector \<Rightarrow> bool" where
  "vector_from splits v =
     (\<exists>s \<in> set splits. isValidContent (pageContent s)
        \<and> get_prop (vec_metadata v) ''pageContent'' = JStr (trim (pageContent s)))"

section \<open>Example inputs\<close>

text \<open>
  A world in which nothing has happened yet, two retrieved chunks of one case and one of
  another, and a docs directory with one readable and one blank PDF page. In
  \<open>example_env\<close> every service answers; the splitter stands in by returning each document
  as a single chunk.
\<close>

definition world0 :: world where
  "world0 = \<lparr>trace = [], upserted = [], console = [], uuids = 0\<rparr>"

definition smith_first :: document where
  "smith_first = \<lparr>pageContent = ''breach'', metadata = [(''title'', JStr ''Smith v. Jones''), (''page'', JNum 1)]\<rparr>"

definition smith_second :: document where
  "smith_second = \<lparr>pageContent = ''damages'', metadata = [(''title'', JStr ''Smith v. Jones''), (''page'', JNum 2)]\<rparr>"

definition contract_pdf :: document where
  "contract_pdf = \<lparr>pageContent = '' breach of contract '',
      metadata = [(''source'', JStr ''docs/smith.pdf''),
                  (''pdf'', JObj [(''pageCount'', JNum 3)]),
                  (''loc'', JObj [(''pageNumber'', JNum 1)])]\<rparr>"

definition blank_pdf :: document where
  "blank_pdf = \<lparr>pageContent = ''  '', metadata = [(''source'', JStr ''docs/blank.pdf'')]\<rparr>"

definition example_env :: env where
  "example_env =
     \<lparr>PINECONE_API_KEY = Some ''pk'',
      PINECONE_INDEX = Some ''cases'',
      VOYAGE_API_KEY = Some ''vk'',
      createIndexIfNecessary = (\<lambda>_. None),
      pineconeIndexHasVectors = (\<lambda>_. Inr False),
      loader_load = Inr [contract_pdf, blank_pdf],
      db_json = Inr (Some [[(''filename'', JStr ''smith.pdf''), (''title'', JStr ''Smith v. Jones'')]]),
      splitDocuments = (\<lambda>docs. Inr docs),
      uuidv4 = (\<lambda>n. replicate (Suc n) CHR ''u''),
      new_VoyageEmbeddings = None,
      embedDocuments = (\<lambda>texts. Inr (Some (map (\<lambda>_. [1]) texts))),
      index_upsert = (\<lambda>_ _. None),
      maxMarginalRelevanceSearch = (\<lambda>_ _. Inr [smith_first, smith_second])\<rparr>"

definition brown :: document where
  "brown = \<lparr>pageContent = ''schools'', metadata = [(''title'', JStr ''Brown v. Board'')]\<rparr>"

text \<open>
  Two retrieved chunks whose title is a list of one string (lists are objects), and a
  similarity search that returns them.
\<close>

definition listed_first :: document where
  "listed_first =
     \<lparr>pageContent = ''breach'', metadata = [(''title'', JObj [(''0'', JStr ''Smith v. Jones'')])]\<rparr>"

definition listed_second :: document where
  "listed_second =
     \<lparr>pageContent = ''damages'', metadata = [(''title'', JObj [(''0'', JStr ''Smith v. Jones'')])]\<rparr>"

definition listed_env :: env where
  "listed_env =
     example_env\<lparr>maxMarginalRelevanceSearch := (\<lambda>_ _. Inr [listed_first, listed_second])\<rparr>"

text \<open>Variants: no vector-store key, an empty docs directory, an index that has vectors.\<close>

definition keyless_env :: env where
  "keyless_env = example_env\<lparr>PINECONE_API_KEY := None\<rparr>"

definition no_pdf_env :: env where
  "no_pdf_env = example_env\<lparr>loader_load := Inr []\<rparr>"

definition indexed_env :: env where
  "indexed_env = example_env\<lparr>pineconeIndexHasVectors := (\<lambda>_. Inr True)\<rparr>"

text \<open>
  Three short chunks, a vector store that rejects every group of a single vector, and three
  vectors to upsert.
\<close>

definition three_chunks :: "document list" where
  "three_chunks =
     [\<lparr>pageContent = ''one'', metadata = []\<rparr>,
      \<lparr>pageContent = ''two'', metadata = []\<rparr>,
      \<lparr>pageContent = ''three'', metadata = []\<rparr>]"

definition flaky_env :: env where
  "flaky_env =
     example_env\<lparr>index_upsert :=
       (\<lambda>_ g. if length g = 1 then Some (JsError ''upsert rejected'' None) else None)\<rparr>"

definition two_vectors :: "vector list" where
  "two_vectors =
     [\<lparr>vec_id = JStr ''a'', vec_values = Some [1], vec_metadata = []\<rparr>,
      \<lparr>vec_id = JStr ''b'', vec_values = Some [2], vec_metadata = []\<rparr>,
      \<lparr>vec_id = JStr ''c'', vec_values = Some [3], vec_metadata = []\<rparr>]"

text \<open>
  An embeddings provider that is down, and the worlds reached with the three chunks and
  the store that rejects single vectors: after the embeddings request, and after the upserts.
\<close>

definition embed_down_env :: env where
  "embed_down_env =
     example_env\<lparr>embedDocuments := (\<lambda>_. Inl (JsError ''embeddings unavailable'' None))\<rparr>"

definition three_casted :: "document list" where
  "three_casted =
     [\<lparr>pageContent = ''one'', metadata = [(''id'', JStr ''u''), (''pageContent'', JStr ''one'')]\<rparr>,
      \<lparr>pageContent = ''two'', metadata = [(''id'', JStr ''uu''), (''pageContent'', JStr ''two'')]\<rparr>,
      \<lparr>pageContent = ''three'', metadata = [(''id'', JStr ''uuu''), (''pageContent'', JStr ''three'')]\<rparr>]"

definition three_embedded :: world where
  "three_embedded =
     \<lparr>trace = [EmbedDocuments [''one'', ''two'', ''three'']],
      upserted = [], console = [], uuids = 3\<rparr>"

definition three_upserting :: world where
  "three_upserting =
     \<lparr>trace =
        [EmbedDocuments [''one'', ''two'', ''three''],
         Upsert (JStr ''cases'')
           [\<lparr>vec_id = JStr ''u'', vec_values = Some [1],
             vec_metadata = [(''id'', JStr ''u''), (''pageContent'', JStr ''one'')]\<rparr>,
            \<lparr>vec_id = JStr ''uu'', vec_values = Some [1],
             vec_metadata = [(''id'', JStr ''uu''), (''pageContent'', JStr ''two'')]\<rparr>],
         Upsert (JStr ''cases'')
           [\<lparr>vec_id = JStr ''uuu'', vec_values = Some [1],
             vec_metadata = [(''id'', JStr ''uuu''), (''pageContent'', JStr ''three'')]\<rparr>]],
      upserted =
        [[\<lparr>vec_id = JStr ''u'', vec_values = Some [1],
           vec_metadata = [(''id'', JStr ''u''), (''pageContent'', JStr ''one'')]\<rparr>,
          \<lparr>vec_id = JStr ''uu'', vec_values = Some [1],
           vec_metadata = [(''id'', JStr ''uu''), (''pageContent'', JStr ''two'')]\<rparr>]],
      console = [], uuids = 3\<rparr>"

section \<open>Lemmas on the search route\<close>

subsection \<open>The map behind the deduplication\<close>

lemma new_Map_snoc: "new_Map (es @ [(key, v)]) = Map_set key v (new_Map es)"
  by (simp add: new_Map_def)

lemma new_Map_Nil: "new_Map [] = []"
  by (simp add: new_Map_def)

lemma Map_set_count:
  "\<not> is_object t \<Longrightarrow>
   length (filter (\<lambda>p. fst p = t) (Map_set key v m)) =
     (if key = t \<and> t \<notin> fst ` set m then 1 else 0) + length (filter (\<lambda>p. fst p = t) m)"
  by (induction m) (force simp: same_key_def)+

lemma Map_set_keys: "fst ` set (Map_set key v m) = insert key (fst ` set m)"
proof (induction m)
  case Nil
  show ?case by simp
next
  case (Cons p m)
  obtain key' v' where p: "p = (key', v')" by (cases p)
  show ?case
  proof (cases "same_key key' key")
    case True
    then have "key' = key" by (simp add: same_key_def)
    with True show ?thesis by (auto simp: p)
  next
    case False
    with Cons show ?thesis by (auto simp: p)
  qed
qed

lemma new_Map_keys: "fst ` set (new_Map es) = fst ` set es"
proof (induction es rule: rev_induct)
  case Nil
  show ?case by (simp add: new_Map_Nil)
next
  case (snoc p es)
  obtain key v where p: "p = (key, v)" by (cases p)
  show ?case using snoc by (simp add: p new_Map_snoc Map_set_keys)
qed

lemma new_Map_count:
  assumes "\<not> is_object t"
  shows "length (filter (\<lambda>p. fst p = t) (new_Map es)) = (if t \<in> fst ` set es then 1 else 0)"
proof (induction es rule: rev_induct)
  case Nil
  show ?case by (simp add: new_Map_Nil)
next
  case (snoc p es)
  obtain key v where p: "p = (key, v)" by (cases p)
  show ?case using snoc assms
    by (auto simp add: p new_Map_snoc Map_set_count new_Map_keys)
qed

lemma Map_set_entries: "set (Map_set key v m) \<subseteq> insert (key, v) (set m)"
proof (induction m)
  case Nil
  show ?case by simp
next
  case (Cons p m)
  obtain key' v' where p: "p = (key', v')" by (cases p)
  show ?case
  proof (cases "same_key key' key")
    case True
    then have "key' = key" by (simp add: same_key_def)
    with True show ?thesis by (auto simp: p)
  next
    case False
    with Cons show ?thesis by (auto simp: p)
  qed
qed

lemma new_Map_entries: "set (new_Map es) \<subseteq> set es"
proof (induction es rule: rev_induct)
  case Nil
  show ?case by (simp add: new_Map_Nil)
next
  case (snoc p es)
  obtain key v where p: "p = (key, v)" by (cases p)
  show ?case using snoc Map_set_entries[of key v "new_Map es"] by (auto simp add: p new_Map_snoc)
qed

lemma uniqueResults_count:
  assumes "\<not> is_object t"
  shows "length (filter (\<lambda>r. title r = t) (uniqueResults retrieved)) =
           (if t \<in> title ` set retrieved then 1 else 0)"
proof -
  let ?es = "map (\<lambda>item. (title item, item)) retrieved"
  have inv: "\<forall>p \<in> set (new_Map ?es). fst p = title (snd p)"
    using new_Map_entries[of ?es] by auto
  have "length (filter (\<lambda>r. title r = t) (uniqueResults retrieved)) =
        length (filter (\<lambda>p. title (snd p) = t) (new_Map ?es))"
    by (simp add: uniqueResults_def Map_values_def filter_map comp_def)
  also have "filter (\<lambda>p. title (snd p) = t) (new_Map ?es) = filter (\<lambda>p. fst p = t) (new_Map ?es)"
    using inv by (intro filter_cong) auto
  also have "length \<dots> = (if t \<in> fst ` set ?es then 1 else 0)"
    by (rule new_Map_count[OF assms])
  also have "fst ` set ?es = title ` set retrieved"
    by (auto simp: image_iff)
  finally show ?thesis .
qed

subsection \<open>The deduplicated list in closed form\<close>

lemma first_seen_snoc:
  "first_seen (ks @ [k]) = (if k \<in> set ks then first_seen ks else first_seen ks @ [k])"
  by (simp add: first_seen_def)

lemma set_first_seen: "set (first_seen ks) = set ks"
  by (simp add: first_seen_def)

lemma distinct_first_seen: "distinct (first_seen ks)"
  by (simp add: first_seen_def)

lemma Map_set_tabulated:
  assumes "\<not> is_object key" and "distinct ks"
  shows "Map_set key v (map (\<lambda>t. (t, h t)) ks) =
           (if key \<in> set ks then map (\<lambda>t. (t, if t = key then v else h t)) ks
            else map (\<lambda>t. (t, h t)) ks @ [(key, v)])"
  using assms(2)
proof (induction ks)
  case Nil
  show ?case by simp
next
  case (Cons t ks)
  have same: "same_key t key = (t = key)"
    using assms(1) by (auto simp: same_key_def)
  show ?case
  proof (cases "t = key")
    case True
    with Cons.prems have "key \<notin> set ks" by simp
    then have "map (\<lambda>t. (t, if t = key then v else h t)) ks = map (\<lambda>t. (t, h t)) ks"
      by (intro map_cong) auto
    moreover have "same_key key key" using same True by simp
    ultimately show ?thesis using True by simp
  next
    case False
    with Cons show ?thesis by (simp add: same)
  qed
qed

lemma new_Map_closed_form:
  assumes "\<forall>x \<in> set xs. \<not> is_object (title x)"
  shows "new_Map (map (\<lambda>item. (title item, item)) xs) =
           map (\<lambda>t. (t, last (filter (\<lambda>x. title x = t) xs))) (first_seen (map title xs))"
  using assms
proof (induction xs rule: rev_induct)
  case Nil
  show ?case by (simp add: new_Map_Nil first_seen_def)
next
  case (snoc x xs)
  let ?ks = "first_seen (map title xs)"
  have IH: "new_Map (map (\<lambda>item. (title item, item)) xs) =
           map (\<lambda>t. (t, last (filter (\<lambda>x. title x = t) xs))) ?ks"
    using snoc by simp
  have prim: "\<not> is_object (title x)" using snoc.prems by simp
  have step: "new_Map (map (\<lambda>item. (title item, item)) (xs @ [x])) =
        Map_set (title x) x (map (\<lambda>t. (t, last (filter (\<lambda>x. title x = t) xs))) ?ks)"
    by (simp add: new_Map_snoc IH)
  show ?case
  proof (cases "title x \<in> set (map title xs)")
    case True
    then have "title x \<in> set ?ks" by (simp add: set_first_seen)
    then show ?thesis
      using True unfolding step
      by (simp add: Map_set_tabulated[OF prim distinct_first_seen] first_seen_snoc)
  next
    case False
    then have notin: "title x \<notin> set ?ks" by (simp add: set_first_seen)
    have "map (\<lambda>t. (t, last (filter (\<lambda>y. title y = t) (xs @ [x])))) ?ks =
          map (\<lambda>t. (t, last (filter (\<lambda>y. title y = t) xs))) ?ks"
      using notin by (intro map_cong) auto
    then show ?thesis
      using False notin unfolding step
      by (simp add: Map_set_tabulated[OF prim distinct_first_seen] first_seen_snoc)
  qed
qed

lemma uniqueResults_closed_form:
  assumes "\<forall>x \<in> set retrieved. \<not> is_object (title x)"
  shows "uniqueResults retrieved =
           map (\<lambda>t. last (filter (\<lambda>x. title x = t) retrieved)) (first_seen (map title retrieved))"
  by (simp add: uniqueResults_def Map_values_def new_Map_closed_form[OF assms] comp_def)

section \<open>Lemmas on the ingestion service\<close>

subsection \<open>The loop of the batched upserts\<close>

lemma slice_take_drop: "slice xs i (i + n) = take n (drop i xs)"
  by (simp add: slice_def)

lemma batchUpserts_from_result:
  assumes "0 < batchSize"
  shows "\<exists>r groups rejected.
           batchUpserts_from e index vectors batchSize i w =
             Some (r, w\<lparr>trace := trace w @ map (Upsert index) (groups @ rejected),
                        upserted := upserted w @ groups\<rparr>)
           \<and> (r = None \<longrightarrow> rejected = [] \<and> concat groups = drop i vectors)
           \<and> (r \<noteq> None \<longrightarrow> length rejected = 1)
           \<and> prefix (concat (groups @ rejected)) (drop i vectors)
           \<and> (\<forall>g \<in> set (groups @ rejected). 0 < length g \<and> length g \<le> batchSize)
           \<and> (\<forall>g \<in> set groups. index_upsert e index g = None)
           \<and> (r \<noteq> None \<longrightarrow> (\<exists>g. rejected = [g] \<and> index_upsert e index g = r))"
proof (induction "length vectors - i" arbitrary: i w rule: less_induct)
  case less
  show ?case
  proof (cases "i < length vectors")
    case False
    then have "batchUpserts_from e index vectors batchSize i w = Some (None, w)"
      by (subst batchUpserts_from.simps) simp
    then show ?thesis
      using False by (intro exI[of _ None] exI[of _ "[]"]) simp
  next
    case True
    let ?g = "slice vectors i (i + batchSize)"
    have g: "?g = take batchSize (drop i vectors)" by (rule slice_take_drop)
    have g_len: "0 < length ?g \<and> length ?g \<le> batchSize"
      using True assms by (simp add: g)
    show ?thesis
    proof (cases "index_upsert e index ?g")
      case (Some err)
      have "batchUpserts_from e index vectors batchSize i w = Some (Some err, emit (Upsert index ?g) w)"
        using True Some by (subst batchUpserts_from.simps) simp
      moreover have "prefix ?g (drop i vectors)"
        by (simp add: g take_is_prefix)
      ultimately show ?thesis
        using g_len Some
        by (intro exI[of _ "Some err"] exI[of _ "[]"] exI[of _ "[?g]"]) (simp add: emit_def)
    next
      case None
      let ?w1 = "(emit (Upsert index ?g) w)\<lparr>upserted := upserted w @ [?g]\<rparr>"
      have unfold: "batchUpserts_from e index vectors batchSize i w =
                      batchUpserts_from e index vectors batchSize (i + batchSize) ?w1"
        using True None by (subst batchUpserts_from.simps) simp
      have "length vectors - (i + batchSize) < length vectors - i"
        using True assms by simp
      from less[OF this, of ?w1] obtain r groups rejected where
        res: "batchUpserts_from e index vectors batchSize (i + batchSize) ?w1 =
                Some (r, ?w1\<lparr>trace := trace ?w1 @ map (Upsert index) (groups @ rejected),
                             upserted := upserted ?w1 @ groups\<rparr>)"
        and ok: "r = None \<longrightarrow> rejected = [] \<and> concat groups = drop (i + batchSize) vectors"
        and bad: "r \<noteq> None \<longrightarrow> length rejected = 1"
        and pre: "prefix (concat (groups @ rejected)) (drop (i + batchSize) vectors)"
        and len: "\<forall>g \<in> set (groups @ rejected). 0 < length g \<and> length g \<le> batchSize"
        and acc: "\<forall>g \<in> set groups. index_upsert e index g = None"
        and rej: "r \<noteq> None \<longrightarrow> (\<exists>g. rejected = [g] \<and> index_upsert e index g = r)"
        by blast
      have "take batchSize (drop i vectors) @ drop batchSize (drop i vectors) = drop i vectors"
        by (rule append_take_drop_id)
      then have split: "drop i vectors = ?g @ drop (i + batchSize) vectors"
        by (simp add: slice_def add.commute)
      have "batchUpserts_from e index vectors batchSize i w =
              Some (r, w\<lparr>trace := trace w @ map (Upsert index) ((?g # groups) @ rejected),
                         upserted := upserted w @ (?g # groups)\<rparr>)"
        unfolding unfold res by (simp add: emit_def)
      moreover have "r = None \<longrightarrow> rejected = [] \<and> concat (?g # groups) = drop i vectors"
        using ok split by simp
      moreover have "prefix (concat ((?g # groups) @ rejected)) (drop i vectors)"
        using pre by (subst split) simp
      moreover have "\<forall>g \<in> set ((?g # groups) @ rejected). 0 < length g \<and> length g \<le> batchSize"
        using len g_len by simp
      moreover have "\<forall>g \<in> set (?g # groups). index_upsert e index g = None"
        using acc None by simp
      ultimately show ?thesis using bad rej
        by (intro exI[of _ r] exI[of _ "?g # groups"] exI[of _ rejected]) simp
    qed
  qed
qed

subsection \<open>How a run extends the world\<close>

lemma extends_by_refl: "extends_by E V w w"
  by (simp add: extends_by_def)

lemma extends_by_trans:
  assumes "extends_by E V w1 w2" and "extends_by E V w2 w3"
  shows "extends_by E V w1 w3"
proof -
  from assms(1) obtain evs gs where
    a: "trace w2 = trace w1 @ evs" "upserted w2 = upserted w1 @ gs"
       "\<forall>ev \<in> set evs. E ev"
       "\<forall>g \<in> set gs. (\<exists>index. Upsert index g \<in> set evs) \<and> (\<forall>v \<in> set g. V v)"
    unfolding extends_by_def by blast
  from assms(2) obtain evs' gs' where
    b: "trace w3 = trace w2 @ evs'" "upserted w3 = upserted w2 @ gs'"
       "\<forall>ev \<in> set evs'. E ev"
       "\<forall>g \<in> set gs'. (\<exists>index. Upsert index g \<in> set evs') \<and> (\<forall>v \<in> set g. V v)"
    unfolding extends_by_def by blast
  show ?thesis
    unfolding extends_by_def
    using a b by (intro exI[of _ "evs @ evs'"] exI[of _ "gs @ gs'"]) auto
qed

lemma extends_by_emit: "E ev \<Longrightarrow> extends_by E V w (emit ev w)"
  by (simp add: extends_by_def emit_def)

lemma extends_by_console: "extends_by E V w (console_error l w)"
  by (simp add: extends_by_def console_error_def)

lemma extends_by_uuids: "extends_by E V w (w\<lparr>uuids := n\<rparr>)"
  by (simp add: extends_by_def)

subsection \<open>Valid content and the vectors made from it\<close>

lemma isValidContent_iff:
  "isValidContent c \<longleftrightarrow> 0 < length (trim c) \<and> length (trim c) < 8192"
  by (auto simp: isValidContent_def Let_def trim_def)

lemma get_set_prop: "get_prop (set_prop k v obj) k = v"
  by (induction obj) (auto simp: get_prop_def)

lemma cast_batch_content:
  "d \<in> set (cast_batch e batch n) \<Longrightarrow>
   \<exists>s \<in> set batch. pageContent d = trim (pageContent s)
      \<and> get_prop (metadata d) ''pageContent'' = JStr (trim (pageContent s))"
  by (induction batch arbitrary: n) (auto simp: get_set_prop)

lemma make_vectors_metadata:
  "v \<in> set (make_vectors castedBatch embeddings) \<Longrightarrow>
   \<exists>d \<in> set castedBatch. vec_metadata v = metadata d"
  by (auto simp: make_vectors_def in_set_enumerate_eq)

subsection \<open>Every stage returns and extends the world\<close>

lemma batchUpserts_extends:
  assumes "0 < batchSize" and "\<forall>g. E (Upsert index g)" and "\<forall>v \<in> set vectors. V v"
  shows "\<exists>r w'. batchUpserts e index vectors batchSize w = Some (r, w') \<and> extends_by E V w w'"
proof -
  from batchUpserts_from_result[OF assms(1), of e index vectors 0 w]
  obtain r groups rejected where
    res: "batchUpserts_from e index vectors batchSize 0 w =
            Some (r, w\<lparr>trace := trace w @ map (Upsert index) (groups @ rejected),
                       upserted := upserted w @ groups\<rparr>)"
    and pre: "prefix (concat (groups @ rejected)) (drop 0 vectors)"
    by blast
  from pre have sub: "set (concat (groups @ rejected)) \<subseteq> set vectors"
    using set_mono_prefix[of "concat (groups @ rejected)" vectors] by simp
  have vs: "\<forall>g \<in> set groups. (\<exists>ix. Upsert ix g \<in> set (map (Upsert index) (groups @ rejected)))
                 \<and> (\<forall>v \<in> set g. V v)"
  proof (intro ballI conjI)
    fix g v assume "g \<in> set groups" "v \<in> set g"
    then have "v \<in> set (concat (groups @ rejected))" by auto
    with sub have "v \<in> set vectors" by blast
    with assms(3) show "V v" by simp
  next
    fix g assume "g \<in> set groups"
    then have "Upsert index g \<in> set (map (Upsert index) (groups @ rejected))" by simp
    then show "\<exists>ix. Upsert ix g \<in> set (map (Upsert index) (groups @ rejected))" ..
  qed
  have evs: "\<forall>ev \<in> set (map (Upsert index) (groups @ rejected)). E ev"
    using assms(2) by auto
  let ?w' = "w\<lparr>trace := trace w @ map (Upsert index) (groups @ rejected),
                upserted := upserted w @ groups\<rparr>"
  have "trace ?w' = trace w @ map (Upsert index) (groups @ rejected)" by simp
  moreover have "upserted ?w' = upserted w @ groups" by simp
  ultimately have "extends_by E V w ?w'"
    unfolding extends_by_def using vs evs by blast
  with res show ?thesis unfolding batchUpserts_def by blast
qed

lemma batch_try_extends:
  assumes E_embed: "\<forall>texts. E (EmbedDocuments texts)"
    and E_sleep: "\<forall>n. E (Sleep n)"
    and E_upsert: "\<not> unset (PINECONE_API_KEY e) \<longrightarrow> (\<forall>g. E (Upsert targetIndex g))"
    and V: "\<forall>embeddings. \<forall>v \<in> set (make_vectors castedBatch embeddings). V v"
  shows "\<exists>r w'. batch_try e targetIndex castedBatch w = Some (r, w') \<and> extends_by E V w w'"
proof -
  let ?texts = "map trim (map pageContent castedBatch)"
  let ?w1 = "emit (EmbedDocuments ?texts) w"
  have w1: "extends_by E V w ?w1" using E_embed by (simp add: extends_by_emit)
  have w1': "extends_by E V w (console_error NoEmbeddings ?w1)"
    by (rule extends_by_trans[OF w1 extends_by_console])
  show ?thesis
  proof (cases "embedDocuments e ?texts")
    case (Inl err)
    then show ?thesis using w1 by (simp add: batch_try_def)
  next
    case (Inr answer)
    show ?thesis
    proof (cases answer)
      case None
      with Inr show ?thesis using w1' by (simp add: batch_try_def)
    next
      case (Some embeddings)
      show ?thesis
      proof (cases "length embeddings = 0")
        case True
        with Inr Some show ?thesis using w1' by (simp add: batch_try_def)
      next
        case nonempty: False
        show ?thesis
        proof (cases "unset (PINECONE_API_KEY e)")
          case True
          with Inr Some nonempty show ?thesis using w1 by (simp add: batch_try_def)
        next
          case key: False
          have "\<exists>r w2. batchUpserts e targetIndex (make_vectors castedBatch embeddings) 2 ?w1
                   = Some (r, w2) \<and> extends_by E V ?w1 w2"
          proof (rule batchUpserts_extends)
            show "0 < (2::nat)" by simp
            show "\<forall>g. E (Upsert targetIndex g)" using E_upsert key by simp
            show "\<forall>v \<in> set (make_vectors castedBatch embeddings). V v" using V by simp
          qed
          then obtain r w2 where
            up: "batchUpserts e targetIndex (make_vectors castedBatch embeddings) 2 ?w1 = Some (r, w2)"
            and ext: "extends_by E V ?w1 w2"
            by blast
          have w2: "extends_by E V w w2" by (rule extends_by_trans[OF w1 ext])
          have "extends_by E V w2 (emit (Sleep 1000) w2)"
            using E_sleep by (simp add: extends_by_emit)
          with w2 have w3: "extends_by E V w (emit (Sleep 1000) w2)"
            by (rule extends_by_trans)
          have "batch_try e targetIndex castedBatch w =
                  (case r of None \<Rightarrow> Some (None, emit (Sleep 1000) w2) | Some err \<Rightarrow> Some (Some err, w2))"
            using Inr Some nonempty key up by (simp add: batch_try_def split: option.splits)
          then show ?thesis
            using w2 w3 by (cases r) simp_all
        qed
      qed
    qed
  qed
qed

lemma bootstrap_batch_extends:
  assumes E_embed: "\<forall>texts. E (EmbedDocuments texts)"
    and E_sleep: "\<forall>n. E (Sleep n)"
    and E_upsert: "\<not> unset (PINECONE_API_KEY e) \<longrightarrow> (\<forall>g. E (Upsert targetIndex g))"
    and V: "\<forall>v. vector_from splits v \<longrightarrow> V v"
  shows "\<exists>r w'. bootstrap_batch e targetIndex splits i w = Some (r, w') \<and> extends_by E V w w'"
proof -
  let ?validBatch = "filter (\<lambda>split. isValidContent (pageContent split))
                       (slice splits i (i + BATCH_SIZE))"
  let ?casted = "cast_batch e ?validBatch (uuids w)"
  let ?w1 = "w\<lparr>uuids := uuids w + length ?validBatch\<rparr>"
  have w1: "extends_by E V w ?w1" by (rule extends_by_uuids)
  have vec: "\<forall>embeddings. \<forall>v \<in> set (make_vectors ?casted embeddings). V v"
  proof (intro allI ballI)
    fix embeddings v
    assume "v \<in> set (make_vectors ?casted embeddings)"
    from make_vectors_metadata[OF this] obtain d where
      d: "d \<in> set ?casted" "vec_metadata v = metadata d" by blast
    from cast_batch_content[OF d(1)] obtain s where
      s: "s \<in> set ?validBatch"
         "get_prop (metadata d) ''pageContent'' = JStr (trim (pageContent s))" by blast
    from s(1) have "isValidContent (pageContent s)" and "s \<in> set splits"
      by (auto simp: slice_def dest: in_set_takeD in_set_dropD)
    with s(2) d(2) have "vector_from splits v" by (auto simp: vector_from_def)
    with V show "V v" by simp
  qed
  from batch_try_extends[OF E_embed E_sleep E_upsert vec]
  obtain r w2 where
    bt: "batch_try e targetIndex ?casted ?w1 = Some (r, w2)" and ext: "extends_by E V ?w1 w2"
    by blast
  have w2: "extends_by E V w w2" by (rule extends_by_trans[OF w1 ext])
  have w3: "extends_by E V w (emit (Sleep 2000) (console_error (BatchError n err) w2))" for n err
  proof -
    have "extends_by E V (console_error (BatchError n err) w2)
            (emit (Sleep 2000) (console_error (BatchError n err) w2))"
      using E_sleep by (simp add: extends_by_emit)
    with extends_by_console have "extends_by E V w2 (emit (Sleep 2000) (console_error (BatchError n err) w2))"
      by (rule extends_by_trans)
    with w2 show ?thesis by (rule extends_by_trans)
  qed
  show ?thesis
  proof (cases "length ?validBatch = 0")
    case True
    then show ?thesis by (simp add: bootstrap_batch_def extends_by_refl)
  next
    case False
    show ?thesis
    proof (cases "new_VoyageEmbeddings e")
      case (Some err)
      with False show ?thesis using w1 by (simp add: bootstrap_batch_def Let_def)
    next
      case None
      with False bt show ?thesis using w2 w3
        by (cases r) (simp_all add: bootstrap_batch_def Let_def)
    qed
  qed
qed

lemma bootstrap_loop_extends:
  assumes "\<forall>texts. E (EmbedDocuments texts)"
    and "\<forall>n. E (Sleep n)"
    and "\<not> unset (PINECONE_API_KEY e) \<longrightarrow> (\<forall>g. E (Upsert targetIndex g))"
    and "\<forall>v. vector_from splits v \<longrightarrow> V v"
  shows "\<exists>r w'. bootstrap_loop e targetIndex splits i w = Some (r, w') \<and> extends_by E V w w'"
  using assms
proof (induction e targetIndex splits i w rule: bootstrap_loop.induct)
  case (1 e targetIndex splits i w)
  show ?case
  proof (cases "i < length splits")
    case False
    then show ?thesis by (simp add: bootstrap_loop.simps extends_by_refl)
  next
    case True
    from bootstrap_batch_extends[OF "1.prems"]
    obtain r w1 where
      b: "bootstrap_batch e targetIndex splits i w = Some (r, w1)" and ext: "extends_by E V w w1"
      by blast
    show ?thesis
    proof (cases r)
      case (Some err)
      with True b ext show ?thesis by (simp add: bootstrap_loop.simps)
    next
      case None
      from "1.IH"[OF True b[unfolded None] refl refl "1.prems"]
      obtain r' w' where
        l: "bootstrap_loop e targetIndex splits (i + BATCH_SIZE) w1 = Some (r', w')"
        and ext': "extends_by E V w1 w'" by blast
      have "extends_by E V w w'" by (rule extends_by_trans[OF ext ext'])
      with True b None l show ?thesis by (simp add: bootstrap_loop.simps)
    qed
  qed
qed

lemma merge_metadata_content:
  "merge_metadata md docs = Inr docs' \<Longrightarrow> map pageContent docs' = map pageContent docs"
  by (induction docs arbitrary: docs') (auto simp: Let_def split: sum.splits option.splits)

lemma filter_valid_content:
  "map pageContent (filter (\<lambda>doc. isValidContent (pageContent doc)) documents) =
     filter isValidContent (map pageContent documents)"
  by (simp add: filter_map comp_def)

lemma readMetadata_extends:
  assumes "E ReadFile"
  shows "\<exists>md w'. readMetadata e w = (md, w') \<and> extends_by E V w w'"
proof -
  have a: "extends_by E V w (emit ReadFile w)" using assms by (rule extends_by_emit)
  have b: "extends_by E V w (console_error l (emit ReadFile w))" for l
    by (rule extends_by_trans[OF a extends_by_console])
  show ?thesis
    using a b by (auto simp: readMetadata_def Let_def split: sum.splits option.splits)
qed

lemma bootstrap_documents_extends:
  assumes E_read: "E ReadFile"
    and E_embed: "\<forall>texts. E (EmbedDocuments texts)"
    and E_sleep: "\<forall>n. E (Sleep n)"
    and E_upsert: "\<not> unset (PINECONE_API_KEY e) \<longrightarrow> (\<forall>g. E (Upsert targetIndex g))"
    and E_split: "\<forall>docs. map pageContent docs = filter isValidContent (map pageContent documents)
                    \<longrightarrow> E (SplitDocuments docs)"
    and V: "\<forall>docs splits v.
              map pageContent docs = filter isValidContent (map pageContent documents)
              \<and> splitDocuments e docs = Inr splits \<and> vector_from splits v \<longrightarrow> V v"
  shows "\<exists>r w'. bootstrap_documents e targetIndex documents w = Some (r, w')
           \<and> extends_by E V w w'"
proof (cases "length documents = 0")
  case True
  then show ?thesis by (simp add: bootstrap_documents_def extends_by_refl)
next
  case nonempty: False
  from readMetadata_extends[where E=E and V=V, OF E_read] obtain md w1 where
    rm: "readMetadata e w = (md, w1)" and w1: "extends_by E V w w1" by blast
  let ?valid = "filter (\<lambda>doc. isValidContent (pageContent doc)) documents"
  show ?thesis
  proof (cases "merge_metadata md ?valid")
    case (Inl err)
    with nonempty rm w1 show ?thesis by (simp add: bootstrap_documents_def)
  next
    case (Inr docs)
    have content: "map pageContent docs = filter isValidContent (map pageContent documents)"
      using merge_metadata_content[OF Inr] by (simp add: filter_valid_content)
    have "extends_by E V w1 (emit (SplitDocuments docs) w1)"
      using E_split content by (simp add: extends_by_emit)
    with w1 have w2: "extends_by E V w (emit (SplitDocuments docs) w1)"
      by (rule extends_by_trans)
    show ?thesis
    proof (cases "splitDocuments e docs")
      case (Inl err)
      with nonempty rm Inr w2 show ?thesis by (simp add: bootstrap_documents_def)
    next
      case split: (Inr splits)
      have "\<forall>v. vector_from splits v \<longrightarrow> V v"
        using V content split by blast
      from bootstrap_loop_extends[where E=E and V=V, OF E_embed E_sleep E_upsert this]
      obtain r w3 where
        l: "bootstrap_loop e targetIndex splits 0 (emit (SplitDocuments docs) w1) = Some (r, w3)"
        and ext: "extends_by E V (emit (SplitDocuments docs) w1) w3"
        by blast
      have "extends_by E V w w3" by (rule extends_by_trans[OF w2 ext])
      with nonempty rm Inr split l show ?thesis
        by (cases r) (simp_all add: bootstrap_documents_def)
    qed
  qed
qed

lemma bootstrap_try_extends:
  assumes E_create: "E (CreateIndexIfNecessary targetIndex)"
    and E_has: "E (PineconeIndexHasVectors targetIndex)"
    and E_load: "E LoaderLoad"
    and E_read: "E ReadFile"
    and E_embed: "\<forall>texts. E (EmbedDocuments texts)"
    and E_sleep: "\<forall>n. E (Sleep n)"
    and E_upsert: "\<not> unset (PINECONE_API_KEY e) \<longrightarrow> (\<forall>g. E (Upsert targetIndex g))"
    and E_split: "\<forall>documents docs. loader_load e = Inr documents
                    \<and> map pageContent docs = filter isValidContent (map pageContent documents)
                    \<longrightarrow> E (SplitDocuments docs)"
    and V: "\<forall>documents docs splits v. loader_load e = Inr documents
              \<and> map pageContent docs = filter isValidContent (map pageContent documents)
              \<and> splitDocuments e docs = Inr splits \<and> vector_from splits v \<longrightarrow> V v"
  shows "\<exists>r w'. bootstrap_try e targetIndex w = Some (r, w') \<and> extends_by E V w w'"
proof -
  let ?w1 = "emit (CreateIndexIfNecessary targetIndex) w"
  let ?w2 = "emit (PineconeIndexHasVectors targetIndex) ?w1"
  let ?w3 = "emit LoaderLoad ?w2"
  have w1: "extends_by E V w ?w1" using E_create by (rule extends_by_emit)
  have "extends_by E V ?w1 ?w2" using E_has by (rule extends_by_emit)
  with w1 have w2: "extends_by E V w ?w2" by (rule extends_by_trans)
  have "extends_by E V ?w2 ?w3" using E_load by (rule extends_by_emit)
  with w2 have w3: "extends_by E V w ?w3" by (rule extends_by_trans)
  show ?thesis
  proof (cases "createIndexIfNecessary e targetIndex")
    case (Some err)
    then show ?thesis using w1 by (simp add: bootstrap_try_def)
  next
    case created: None
    show ?thesis
    proof (cases "pineconeIndexHasVectors e targetIndex")
      case (Inl err)
      with created show ?thesis using w2 by (simp add: bootstrap_try_def)
    next
      case has: (Inr hasVectors)
      show ?thesis
      proof (cases hasVectors)
        case True
        with created has show ?thesis using w2 by (simp add: bootstrap_try_def)
      next
        case no_vectors: False
        show ?thesis
        proof (cases "loader_load e")
          case (Inl err)
          with created has no_vectors show ?thesis using w3 by (simp add: bootstrap_try_def)
        next
          case (Inr documents)
          have "\<exists>r w'. bootstrap_documents e targetIndex documents ?w3 = Some (r, w')
                  \<and> extends_by E V ?w3 w'"
            using E_read E_embed E_sleep E_upsert
          proof (rule bootstrap_documents_extends[where E=E and V=V])
            show "\<forall>docs. map pageContent docs = filter isValidContent (map pageContent documents)
                    \<longrightarrow> E (SplitDocuments docs)"
              using E_split Inr by blast
            show "\<forall>docs splits v.
                    map pageContent docs = filter isValidContent (map pageContent documents)
                    \<and> splitDocuments e docs = Inr splits \<and> vector_from splits v \<longrightarrow> V v"
              using V Inr by blast
          qed
          then obtain r w4 where
            d: "bootstrap_documents e targetIndex documents ?w3 = Some (r, w4)"
            and ext: "extends_by E V ?w3 w4" by blast
          have "extends_by E V w w4" by (rule extends_by_trans[OF w3 ext])
          with created has no_vectors Inr d show ?thesis by (simp add: bootstrap_try_def)
        qed
      qed
    qed
  qed
qed

lemma handleBootstrapping_extends:
  assumes "E (CreateIndexIfNecessary targetIndex)"
    and "E (PineconeIndexHasVectors targetIndex)"
    and "E LoaderLoad"
    and "E ReadFile"
    and "\<forall>texts. E (EmbedDocuments texts)"
    and "\<forall>n. E (Sleep n)"
    and "\<not> unset (PINECONE_API_KEY e) \<longrightarrow> (\<forall>g. E (Upsert targetIndex g))"
    and "\<forall>documents docs. loader_load e = Inr documents
                    \<and> map pageContent docs = filter isValidContent (map pageContent documents)
                    \<longrightarrow> E (SplitDocuments docs)"
    and "\<forall>documents docs splits v. loader_load e = Inr documents
              \<and> map pageContent docs = filter isValidContent (map pageContent documents)
              \<and> splitDocuments e docs = Inr splits \<and> vector_from splits v \<longrightarrow> V v"
  shows "\<exists>r w'. handleBootstrapping e targetIndex w = Some (r, w') \<and> extends_by E V w w'"
proof -
  from bootstrap_try_extends[where E=E and V=V, OF assms] obtain r w1 where
    t: "bootstrap_try e targetIndex w = Some (r, w1)" and ext: "extends_by E V w w1" by blast
  have "extends_by E V w (console_error l w1)" for l
    by (rule extends_by_trans[OF ext extends_by_console])
  with t ext show ?thesis
    by (cases r) (simp_all add: handleBootstrapping_def)
qed

lemma extends_by_new_events:
  assumes "extends_by E V w w'"
  shows "\<forall>ev \<in> set (drop (length (trace w)) (trace w')). E ev"
    and "\<forall>g \<in> set (drop (length (upserted w)) (upserted w')). \<forall>v \<in> set g. V v"
    and "\<forall>g \<in> set (drop (length (upserted w)) (upserted w')).
           \<exists>index. Upsert index g \<in> set (drop (length (trace w)) (trace w'))"
    and "prefix (trace w) (trace w')" and "prefix (upserted w) (upserted w')"
  using assms unfolding extends_by_def by auto

section \<open>Runs on the example inputs\<close>

lemma example_search:
  "search_POST example_env (JStr ''breach of contract'') world0 =
     (NextResponse_json (ResultsBody [smith_second]) 200,
      emit (MaxMarginalRelevanceSearch (JStr ''breach of contract'') search_options) world0)"
  by code_simp

lemma keyless_run:
  "handleBootstrapping keyless_env (JStr ''cases'') world0 =
     Some (NextResponse_json SuccessBody 200,
       \<lparr>trace =
          [CreateIndexIfNecessary (JStr ''cases''), PineconeIndexHasVectors (JStr ''cases''),
           LoaderLoad, ReadFile,
           SplitDocuments
             [\<lparr>pageContent = '' breach of contract '',
               metadata =
                 [(''source'', JStr ''docs/smith.pdf''),
                  (''pdf'', JObj [(''pageCount'', JNum 3)]),
                  (''loc'', JObj [(''pageNumber'', JNum 1)]),
                  (''filename'', JStr ''smith.pdf''),
                  (''title'', JStr ''Smith v. Jones''),
                  (''pageContent'', JStr '' breach of contract '')]\<rparr>],
           EmbedDocuments [''breach of contract''], Sleep 2000],
        upserted = [],
        console = [BatchError 1 (JsError ''PINECONE_API_KEY environment variable is not set'' None)],
        uuids = 1\<rparr>)"
  by code_simp

lemma no_pdf_run:
  "handleBootstrapping no_pdf_env (JStr ''cases'') world0 =
     Some (NextResponse_json (ErrorBody ''No documents found in the docs directory'') 400,
           \<lparr>trace = [CreateIndexIfNecessary (JStr ''cases''), PineconeIndexHasVectors (JStr ''cases''), LoaderLoad],
            upserted = [], console = [], uuids = 0\<rparr>)"
  by code_simp

section \<open>The claims on the search route\<close>

subsection \<open>The query-presence check\<close>

text \<open>
  Claim C10. A request whose query is the empty string gets the same answer as a request
  without a query: status 400 with the error \<open>Query is required\<close>, and the world is left
  as it was, so no embedding or similarity-search request is made. The same holds for every
  falsy query value.
\<close>

theorem falsy_query_rejected:
  "search_POST e (JStr []) w = (NextResponse_json (ErrorBody ''Query is required'') 400, w)
   \<and> search_POST e (JStr []) w = search_POST e JUndefined w
   \<and> (\<forall>query. \<not> truthy query \<longrightarrow>
         search_POST e query w = (NextResponse_json (ErrorBody ''Query is required'') 400, w))"
  by (simp add: search_POST_def)

theorem falsy_query_rejected_witness:
  "\<not> truthy (JNum 0)
   \<and> search_POST example_env (JNum 0) world0 =
       (NextResponse_json (ErrorBody ''Query is required'') 400, world0)"
  using falsy_query_rejected[of example_env world0] by simp

lemma search_POST_results:
  assumes "search_POST e query w = (r, w')" and "body r = ResultsBody results"
  shows "\<exists>retrieved. maxMarginalRelevanceSearch e query search_options = Inr retrieved
           \<and> results = uniqueResults retrieved"
  using assms
  by (auto simp: search_POST_def search_try_def NextResponse_json_def Let_def
           split: if_splits sum.splits)

lemma title_uniqueResults:
  assumes "\<forall>x \<in> set retrieved. \<not> is_object (title x)"
  shows "map title (uniqueResults retrieved) = first_seen (map title retrieved)"
proof -
  have "title (last (filter (\<lambda>x. title x = t) retrieved)) = t"
    if "t \<in> set (first_seen (map title retrieved))" for t
  proof -
    from that have "filter (\<lambda>x. title x = t) retrieved \<noteq> []"
      by (auto simp: set_first_seen filter_empty_conv)
    then have "last (filter (\<lambda>x. title x = t) retrieved) \<in> set (filter (\<lambda>x. title x = t) retrieved)"
      by (rule last_in_set)
    then show ?thesis by simp
  qed
  then show ?thesis
    unfolding uniqueResults_closed_form[OF assms] by (simp add: map_idI)
qed

lemma Map_set_has_new: "(key, v) \<in> set (Map_set key v m)"
proof (induction m)
  case Nil
  show ?case by simp
next
  case (Cons p m)
  obtain key' v' where p: "p = (key', v')" by (cases p)
  show ?case
  proof (cases "same_key key' key")
    case True
    then have "key' = key" by (simp add: same_key_def)
    with True show ?thesis by (simp add: p)
  next
    case False
    with Cons show ?thesis by (simp add: p)
  qed
qed

lemma Map_set_keeps_object:
  assumes "is_object k" and "(k, x) \<in> set m"
  shows "(k, x) \<in> set (Map_set key v m)"
  using assms(2)
proof (induction m)
  case Nil
  then show ?case by simp
next
  case (Cons p m)
  obtain key' v' where p: "p = (key', v')" by (cases p)
  show ?case
  proof (cases "same_key key' key")
    case True
    from True have "\<not> is_object key'" unfolding same_key_def by blast
    with assms(1) have "key' \<noteq> k" by auto
    with Cons.prems have "(k, x) \<in> set m" by (simp add: p)
    with True show ?thesis by (simp add: p)
  next
    case False
    with Cons show ?thesis by (auto simp: p)
  qed
qed

lemma new_Map_keeps_object:
  assumes "is_object k"
  shows "(k, x) \<in> set es \<Longrightarrow> (k, x) \<in> set (new_Map es)"
proof (induction es rule: rev_induct)
  case Nil
  then show ?case by simp
next
  case (snoc p es)
  obtain key v where p: "p = (key, v)" by (cases p)
  show ?case
  proof (cases "(k, x) = (key, v)")
    case True
    then show ?thesis by (simp add: p new_Map_snoc Map_set_has_new)
  next
    case False
    with snoc.prems have "(k, x) \<in> set es" by (auto simp: p)
    then have "(k, x) \<in> set (new_Map es)" by (rule snoc.IH)
    then show ?thesis
      by (simp add: p new_Map_snoc Map_set_keeps_object[OF assms])
  qed
qed

lemma uniqueResults_keeps_object:
  assumes "item \<in> set retrieved" and "is_object (title item)"
  shows "item \<in> set (uniqueResults retrieved)"
proof -
  from assms(1) have "(title item, item) \<in> set (map (\<lambda>item. (title item, item)) retrieved)"
    by simp
  then have "(title item, item) \<in> set (new_Map (map (\<lambda>item. (title item, item)) retrieved))"
    by (rule new_Map_keeps_object[OF assms(2)])
  then have "snd (title item, item) \<in> snd ` set (new_Map (map (\<lambda>item. (title item, item)) retrieved))"
    by (rule imageI)
  then show ?thesis by (simp add: uniqueResults_def Map_values_def)
qed

lemma listed_search:
  "search_POST listed_env (JStr ''breach of contract'') world0 =
     (NextResponse_json (ResultsBody [listed_first, listed_second]) 200,
      emit (MaxMarginalRelevanceSearch (JStr ''breach of contract'') search_options) world0)"
  by code_simp

lemma listed_titles:
  "title listed_first = JObj [(''0'', JStr ''Smith v. Jones'')]"
  "title listed_second = JObj [(''0'', JStr ''Smith v. Jones'')]"
  by (simp_all add: title_def get_prop_def listed_first_def listed_second_def)

text \<open>
  Claim C4, as stated, fails for titles that are lists: two retrieved chunks with the same
  list of strings as title are both in the result list, since the map compares such keys by
  identity.
\<close>

theorem equal_list_titles_both_returned:
  "''breach of contract'' \<noteq> []
   \<and> title listed_first = title listed_second
   \<and> listed_first \<noteq> listed_second
   \<and> search_POST listed_env (JStr ''breach of contract'') world0 =
       (NextResponse_json (ResultsBody [listed_first, listed_second]) 200,
        emit (MaxMarginalRelevanceSearch (JStr ''breach of contract'') search_options) world0)"
  using listed_search by (simp add: listed_titles) (simp add: listed_first_def listed_second_def)

text \<open>
  Claim C4, amended. When the handler answers a non-empty query string with a result list,
  that list never holds two results with the same title where the title is a string (or a
  number, a boolean, \<open>null\<close> or \<open>undefined\<close>: the values compared by value): for every such
  title the list holds exactly one result with it if some retrieved item has it, and none
  otherwise; when all retrieved titles are such values, the titles of the results are
  pairwise distinct. A retrieved item whose title is a list or another object is always in
  the result list, whatever the other titles are.
\<close>

theorem search_results_have_distinct_titles:
  assumes "query \<noteq> []"
    and "search_POST e (JStr query) w = (r, w')"
    and "body r = ResultsBody results"
  shows "\<exists>retrieved. maxMarginalRelevanceSearch e (JStr query) search_options = Inr retrieved
           \<and> (\<forall>t. \<not> is_object t \<longrightarrow>
                 length (filter (\<lambda>item. title item = t) results) =
                   (if t \<in> title ` set retrieved then 1 else 0))
           \<and> ((\<forall>item \<in> set retrieved. \<not> is_object (title item)) \<longrightarrow>
                 distinct (map title results))
           \<and> (\<forall>item \<in> set retrieved. is_object (title item) \<longrightarrow> item \<in> set results)"
proof -
  from search_POST_results[OF assms(2,3)] obtain retrieved where
    r: "maxMarginalRelevanceSearch e (JStr query) search_options = Inr retrieved"
    and res: "results = uniqueResults retrieved" by blast
  have "\<forall>t. \<not> is_object t \<longrightarrow>
          length (filter (\<lambda>item. title item = t) results) =
            (if t \<in> title ` set retrieved then 1 else 0)"
    unfolding res by (simp add: uniqueResults_count)
  moreover have "(\<forall>item \<in> set retrieved. \<not> is_object (title item)) \<longrightarrow>
                   distinct (map title results)"
    unfolding res by (simp add: title_uniqueResults distinct_first_seen)
  moreover have "\<forall>item \<in> set retrieved. is_object (title item) \<longrightarrow> item \<in> set results"
    unfolding res by (simp add: uniqueResults_keeps_object)
  ultimately show ?thesis using r by blast
qed

theorem search_results_have_distinct_titles_witness:
  "''breach of contract'' \<noteq> []
   \<and> search_POST example_env (JStr ''breach of contract'') world0 =
       (NextResponse_json (ResultsBody [smith_second]) 200,
        emit (MaxMarginalRelevanceSearch (JStr ''breach of contract'') search_options) world0)
   \<and> maxMarginalRelevanceSearch example_env (JStr ''breach of contract'') search_options =
       Inr [smith_first, smith_second]
   \<and> title smith_first = JStr ''Smith v. Jones''
   \<and> title smith_second = JStr ''Smith v. Jones''
   \<and> length (filter (\<lambda>item. title item = JStr ''Smith v. Jones'') [smith_second]) = 1
   \<and> distinct (map title [smith_second])
   \<and> maxMarginalRelevanceSearch listed_env (JStr ''breach of contract'') search_options =
       Inr [listed_first, listed_second]
   \<and> is_object (title listed_first)
   \<and> listed_first \<in> set [listed_first, listed_second]"
proof -
  have q: "''breach of contract'' \<noteq> []" by simp
  have b: "body (NextResponse_json (ResultsBody [smith_second]) 200) = ResultsBody [smith_second]"
    by (simp add: NextResponse_json_def)
  have m: "maxMarginalRelevanceSearch example_env (JStr ''breach of contract'') search_options =
       Inr [smith_first, smith_second]"
    by (simp add: example_env_def)
  have t: "title smith_first = JStr ''Smith v. Jones''" "title smith_second = JStr ''Smith v. Jones''"
    by (simp_all add: title_def get_prop_def smith_first_def smith_second_def)
  from search_results_have_distinct_titles[OF q example_search b] m
  have "length (filter (\<lambda>item. title item = JStr ''Smith v. Jones'') [smith_second]) =
          (if JStr ''Smith v. Jones'' \<in> title ` set [smith_first, smith_second] then 1 else 0)"
    and "(\<forall>item \<in> set [smith_first, smith_second]. \<not> is_object (title item)) \<longrightarrow>
                 distinct (map title [smith_second])"
    by auto
  then have strings:
    "length (filter (\<lambda>item. title item = JStr ''Smith v. Jones'') [smith_second]) = 1
     \<and> distinct (map title [smith_second])"
    by (simp add: t)
  have b': "body (NextResponse_json (ResultsBody [listed_first, listed_second]) 200) =
              ResultsBody [listed_first, listed_second]"
    by (simp add: NextResponse_json_def)
  have m': "maxMarginalRelevanceSearch listed_env (JStr ''breach of contract'') search_options =
       Inr [listed_first, listed_second]"
    by (simp add: listed_env_def)
  have o: "is_object (title listed_first)" by (simp add: listed_titles)
  from search_results_have_distinct_titles[OF q listed_search b'] m'
  have "\<forall>item \<in> set [listed_first, listed_second].
          is_object (title item) \<longrightarrow> item \<in> set [listed_first, listed_second]"
    by auto
  with o have lists: "listed_first \<in> set [listed_first, listed_second]" by simp
  from q example_search m t strings m' o lists show ?thesis by simp
qed

subsection \<open>Which occurrence survives the deduplication\<close>

text \<open>
  Claim C2, as stated, fails: of two retrieved chunks with the same title the handler keeps
  the second, not the first.
\<close>

theorem first_occurrence_not_retained:
  "title smith_first = title smith_second
   \<and> uniqueResults [smith_first, smith_second] = [smith_second]
   \<and> uniqueResults [smith_first, smith_second] \<noteq> [smith_first]"
  by (simp add: uniqueResults_def new_Map_def Map_values_def title_def get_prop_def
        smith_first_def smith_second_def same_key_def)

text \<open>
  Claim C2, amended. For retrieved items whose titles are compared by value, the
  deduplicated list has one result for each distinct title, in the order in which the
  titles are first seen, and the result kept for a title is the last retrieved item with
  that title: a later item with a title already seen replaces the earlier one in place.
\<close>

theorem dedup_keeps_last_occurrence:
  assumes "\<forall>item \<in> set retrieved. \<not> is_object (title item)"
  shows "uniqueResults retrieved =
           map (\<lambda>t. last (filter (\<lambda>item. title item = t) retrieved))
               (first_seen (map title retrieved))
         \<and> map title (uniqueResults retrieved) = first_seen (map title retrieved)"
  using uniqueResults_closed_form[OF assms] title_uniqueResults[OF assms] by simp

theorem dedup_keeps_last_occurrence_witness:
  "\<not> is_object (title smith_first) \<and> \<not> is_object (title brown) \<and> \<not> is_object (title smith_second)
   \<and> first_seen (map title [smith_first, brown, smith_second]) =
        [JStr ''Smith v. Jones'', JStr ''Brown v. Board'']
   \<and> uniqueResults [smith_first, brown, smith_second] = [smith_second, brown]"
proof -
  have t: "title smith_first = JStr ''Smith v. Jones''" "title smith_second = JStr ''Smith v. Jones''"
      "title brown = JStr ''Brown v. Board''"
    by (simp_all add: title_def get_prop_def smith_first_def smith_second_def brown_def)
  have p: "\<forall>item \<in> set [smith_first, brown, smith_second]. \<not> is_object (title item)"
    by (simp add: t)
  have f: "first_seen (map title [smith_first, brown, smith_second]) =
        [JStr ''Smith v. Jones'', JStr ''Brown v. Board'']"
    by (simp add: t first_seen_def)
  show ?thesis
    using dedup_keeps_last_occurrence[OF p] unfolding f by (simp add: t)
qed

section \<open>The claim on missing configuration\<close>

text \<open>
  What each path does, in general, when a configuration value is missing. The search
  route throws before any request is made. The ingestion procedure throws inside the
  \<open>try\<close> block of a batch once the embeddings of that batch have arrived, and never
  reaches an upsert.
\<close>

lemma missing_configuration:
  "(truthy query \<and> (unset (PINECONE_API_KEY e) \<or> unset (PINECONE_INDEX e) \<or> unset (VOYAGE_API_KEY e))
      \<longrightarrow> (\<exists>msg. search_try e query w = (Inl (new_Error msg), w)
             \<and> search_POST e query w =
                 (NextResponse_json (ErrorBody ''Error searching for query'') 500,
                  console_error (SearchError (new_Error msg)) w)
             \<and> trace (console_error (SearchError (new_Error msg)) w) = trace w))
   \<and> (unset (PINECONE_API_KEY e)
      \<longrightarrow> (\<exists>r w'. handleBootstrapping e targetIndex w = Some (r, w')
             \<and> upserted w' = upserted w
             \<and> (\<forall>index g. Upsert index g \<notin> set (drop (length (trace w)) (trace w')))))"
proof (intro conjI impI)
  assume "truthy query \<and> (unset (PINECONE_API_KEY e) \<or> unset (PINECONE_INDEX e) \<or> unset (VOYAGE_API_KEY e))"
  then show "\<exists>msg. search_try e query w = (Inl (new_Error msg), w)
             \<and> search_POST e query w =
                 (NextResponse_json (ErrorBody ''Error searching for query'') 500,
                  console_error (SearchError (new_Error msg)) w)
             \<and> trace (console_error (SearchError (new_Error msg)) w) = trace w"
    by (auto simp: search_POST_def search_try_def console_error_def)
next
  assume key: "unset (PINECONE_API_KEY e)"
  let ?E = "\<lambda>ev. \<forall>index g. ev \<noteq> Upsert index g"
  have "\<exists>r w'. handleBootstrapping e targetIndex w = Some (r, w') \<and> extends_by ?E (\<lambda>_. True) w w'"
    by (rule handleBootstrapping_extends) (simp_all add: key)
  then obtain r w' where
    run: "handleBootstrapping e targetIndex w = Some (r, w')"
    and ext: "extends_by ?E (\<lambda>_. True) w w'" by blast
  from extends_by_new_events(1)[OF ext]
  have no_upsert: "\<forall>index g. Upsert index g \<notin> set (drop (length (trace w)) (trace w'))"
    by blast
  from extends_by_new_events(3)[OF ext] no_upsert
  have "drop (length (upserted w)) (upserted w') = []"
    by (cases "drop (length (upserted w)) (upserted w')") auto
  moreover from extends_by_new_events(5)[OF ext] have "prefix (upserted w) (upserted w')" .
  ultimately have "upserted w' = upserted w"
    by (auto simp: prefix_def)
  with run no_upsert
  show "\<exists>r w'. handleBootstrapping e targetIndex w = Some (r, w')
             \<and> upserted w' = upserted w
             \<and> (\<forall>index g. Upsert index g \<notin> set (drop (length (trace w)) (trace w')))"
    by blast
qed

lemma missing_configuration_example:
  "truthy (JStr ''breach of contract'')
   \<and> unset (PINECONE_API_KEY keyless_env)
   \<and> (\<exists>msg. search_try keyless_env (JStr ''breach of contract'') world0 = (Inl (new_Error msg), world0)
         \<and> search_POST keyless_env (JStr ''breach of contract'') world0 =
             (NextResponse_json (ErrorBody ''Error searching for query'') 500,
              console_error (SearchError (new_Error msg)) world0)
         \<and> trace (console_error (SearchError (new_Error msg)) world0) = trace world0)
   \<and> (\<exists>r w'. handleBootstrapping keyless_env (JStr ''cases'') world0 = Some (r, w')
         \<and> upserted w' = upserted world0)"
proof -
  have k: "unset (PINECONE_API_KEY keyless_env)"
    by (simp add: keyless_env_def unset_def)
  have q: "truthy (JStr ''breach of contract'')" by simp
  show ?thesis
    using missing_configuration[of "JStr ''breach of contract''" keyless_env world0 "JStr ''cases''"] k q
    by blast
qed

lemma missing_key_thrown_after_embedding:
  assumes "unset (PINECONE_API_KEY e)"
    and "embedDocuments e (map trim (map pageContent castedBatch)) = Inr (Some embeddings)"
    and "embeddings \<noteq> []"
  shows "batch_try e targetIndex castedBatch w =
           Some (Some (new_Error ''PINECONE_API_KEY environment variable is not set''),
                 emit (EmbedDocuments (map trim (map pageContent castedBatch))) w)"
  using assms by (simp add: batch_try_def)

lemma keyless_search:
  "search_POST keyless_env (JStr ''breach of contract'') world0 =
     (NextResponse_json (ErrorBody ''Error searching for query'') 500,
      \<lparr>trace = [], upserted = [],
       console = [SearchError (JsError ''PINECONE_API_KEY is not defined'' None)],
       uuids = 0\<rparr>)"
  by code_simp

text \<open>
  Claim C3, with no vector-store key. The search route does what the claim says: it throws
  before any request and answers with status 500. The ingestion procedure does not: it asks
  the index helpers, loads and splits the documents and requests the embeddings of the batch
  first; the error \<open>PINECONE_API_KEY environment variable is not set\<close> is thrown only then,
  inside the \<open>try\<close> block of the batch, whose \<open>catch\<close> logs it, and the procedure answers
  with success.
\<close>

theorem missing_key_still_embeds:
  "unset (PINECONE_API_KEY keyless_env)
   \<and> search_POST keyless_env (JStr ''breach of contract'') world0 =
     (NextResponse_json (ErrorBody ''Error searching for query'') 500,
      \<lparr>trace = [], upserted = [],
       console = [SearchError (JsError ''PINECONE_API_KEY is not defined'' None)],
       uuids = 0\<rparr>)
   \<and> handleBootstrapping keyless_env (JStr ''cases'') world0 =
     Some (NextResponse_json SuccessBody 200,
       \<lparr>trace =
          [CreateIndexIfNecessary (JStr ''cases''), PineconeIndexHasVectors (JStr ''cases''),
           LoaderLoad, ReadFile,
           SplitDocuments
             [\<lparr>pageContent = '' breach of contract '',
               metadata =
                 [(''source'', JStr ''docs/smith.pdf''),
                  (''pdf'', JObj [(''pageCount'', JNum 3)]),
                  (''loc'', JObj [(''pageNumber'', JNum 1)]),
                  (''filename'', JStr ''smith.pdf''),
                  (''title'', JStr ''Smith v. Jones''),
                  (''pageContent'', JStr '' breach of contract '')]\<rparr>],
           EmbedDocuments [''breach of contract''], Sleep 2000],
        upserted = [],
        console = [BatchError 1 (JsError ''PINECONE_API_KEY environment variable is not set'' None)],
        uuids = 1\<rparr>)"
  using keyless_run keyless_search by (simp add: keyless_env_def unset_def)

section \<open>The claims on the ingestion\<close>

subsection \<open>What the ingest route answers\<close>

text \<open>
  Claim C1, at an empty docs directory. \<open>handleBootstrapping\<close> builds the 400 response
  with the explanatory message, and the ingest route, which does not look at what
  \<open>handleBootstrapping\<close> returns, answers with status 200 and \<open>success\<close>.
\<close>

theorem ingest_route_discards_response:
  "handleBootstrapping no_pdf_env (JStr ''cases'') world0 =
     Some (NextResponse_json (ErrorBody ''No documents found in the docs directory'') 400,
           \<lparr>trace = [CreateIndexIfNecessary (JStr ''cases''),
                     PineconeIndexHasVectors (JStr ''cases''), LoaderLoad],
            upserted = [], console = [], uuids = 0\<rparr>)
   \<and> ingest_POST no_pdf_env (JStr ''cases'') world0 =
     Some (NextResponse_json SuccessBody 200,
           \<lparr>trace = [CreateIndexIfNecessary (JStr ''cases''),
                     PineconeIndexHasVectors (JStr ''cases''), LoaderLoad],
            upserted = [], console = [], uuids = 0\<rparr>)"
  using no_pdf_run by (simp add: ingest_POST_def)

subsection \<open>An index that already holds vectors\<close>

text \<open>
  Claim C5. When the index exists and is reported to hold vectors, the procedure returns
  success at once: the only requests made are the two that look at the index, so nothing is
  embedded, and nothing is written to the store.
\<close>

theorem index_with_vectors_is_skipped:
  assumes "createIndexIfNecessary e targetIndex = None"
    and "pineconeIndexHasVectors e targetIndex = Inr True"
  shows "\<exists>w'. handleBootstrapping e targetIndex w = Some (NextResponse_json SuccessBody 200, w')
           \<and> trace w' = trace w @ [CreateIndexIfNecessary targetIndex,
                                     PineconeIndexHasVectors targetIndex]
           \<and> upserted w' = upserted w"
  using assms by (simp add: handleBootstrapping_def bootstrap_try_def emit_def)

theorem index_with_vectors_is_skipped_witness:
  "createIndexIfNecessary indexed_env (JStr ''cases'') = None
   \<and> pineconeIndexHasVectors indexed_env (JStr ''cases'') = Inr True
   \<and> (\<exists>w'. handleBootstrapping indexed_env (JStr ''cases'') world0 =
              Some (NextResponse_json SuccessBody 200, w')
           \<and> trace w' = trace world0 @ [CreateIndexIfNecessary (JStr ''cases''),
                                          PineconeIndexHasVectors (JStr ''cases'')]
           \<and> upserted w' = upserted world0)"
proof -
  have a: "createIndexIfNecessary indexed_env (JStr ''cases'') = None"
    by (simp add: indexed_env_def example_env_def)
  have b: "pineconeIndexHasVectors indexed_env (JStr ''cases'') = Inr True"
    by (simp add: indexed_env_def example_env_def)
  show ?thesis
    using index_with_vectors_is_skipped[OF a b, of world0] a b by simp
qed

subsection \<open>Batched upserts\<close>

text \<open>
  Claim C7. For a positive sub-batch size \<open>batchUpserts\<close> always returns. It returns an
  error only if the vector store rejected a group it was sent, and then with that error.
  When the store rejects no group, \<open>batchUpserts\<close> returns normally, and the groups it has
  sent and stored are non-empty, no longer than the sub-batch size, and their concatenation
  is the list of vectors: consecutive groups, each vector in exactly one of them.
\<close>

theorem batchUpserts_partitions:
  assumes "0 < batchSize"
  shows "(\<exists>r w'. batchUpserts e index vectors batchSize w = Some (r, w')
            \<and> (r \<noteq> None \<longrightarrow>
                  (\<exists>g. Upsert index g \<in> set (drop (length (trace w)) (trace w'))
                     \<and> index_upsert e index g = r))
            \<and> (r = None \<longrightarrow>
                  (\<exists>groups. trace w' = trace w @ map (Upsert index) groups
                     \<and> upserted w' = upserted w @ groups
                     \<and> concat groups = vectors
                     \<and> (\<forall>g \<in> set groups. 0 < length g \<and> length g \<le> batchSize
                                            \<and> index_upsert e index g = None))))
       \<and> ((\<forall>g. index_upsert e index g = None) \<longrightarrow>
            (\<exists>w' groups. batchUpserts e index vectors batchSize w = Some (None, w')
               \<and> trace w' = trace w @ map (Upsert index) groups
               \<and> upserted w' = upserted w @ groups
               \<and> concat groups = vectors
               \<and> (\<forall>g \<in> set groups. 0 < length g \<and> length g \<le> batchSize)))"
proof -
  from batchUpserts_from_result[OF assms, of e index vectors 0 w]
  obtain r groups rejected where
    res: "batchUpserts_from e index vectors batchSize 0 w =
            Some (r, w\<lparr>trace := trace w @ map (Upsert index) (groups @ rejected),
                       upserted := upserted w @ groups\<rparr>)"
    and ok: "r = None \<longrightarrow> rejected = [] \<and> concat groups = drop 0 vectors"
    and len: "\<forall>g \<in> set (groups @ rejected). 0 < length g \<and> length g \<le> batchSize"
    and acc: "\<forall>g \<in> set groups. index_upsert e index g = None"
    and rej: "r \<noteq> None \<longrightarrow> (\<exists>g. rejected = [g] \<and> index_upsert e index g = r)"
    by blast
  let ?w' = "w\<lparr>trace := trace w @ map (Upsert index) (groups @ rejected),
                upserted := upserted w @ groups\<rparr>"
  have run: "batchUpserts e index vectors batchSize w = Some (r, ?w')"
    using res by (simp add: batchUpserts_def)
  have failing: "r \<noteq> None \<longrightarrow>
          (\<exists>g. Upsert index g \<in> set (drop (length (trace w)) (trace ?w'))
             \<and> index_upsert e index g = r)"
  proof
    assume "r \<noteq> None"
    with rej obtain g where g: "rejected = [g]" "index_upsert e index g = r" by blast
    then have "Upsert index g \<in> set (drop (length (trace w)) (trace ?w'))" by simp
    with g(2) show "\<exists>g. Upsert index g \<in> set (drop (length (trace w)) (trace ?w'))
             \<and> index_upsert e index g = r"
      by blast
  qed
  have partition: "r = None \<longrightarrow>
          (\<exists>gs. trace ?w' = trace w @ map (Upsert index) gs
             \<and> upserted ?w' = upserted w @ gs
             \<and> concat gs = vectors
             \<and> (\<forall>g \<in> set gs. 0 < length g \<and> length g \<le> batchSize
                                \<and> index_upsert e index g = None))"
  proof
    assume "r = None"
    with ok have "rejected = []" and "concat groups = vectors" by simp_all
    with len acc show "\<exists>gs. trace ?w' = trace w @ map (Upsert index) gs
             \<and> upserted ?w' = upserted w @ gs
             \<and> concat gs = vectors
             \<and> (\<forall>g \<in> set gs. 0 < length g \<and> length g \<le> batchSize
                                \<and> index_upsert e index g = None)"
      by (intro exI[of _ groups]) simp
  qed
  have first: "\<exists>r w'. batchUpserts e index vectors batchSize w = Some (r, w')
            \<and> (r \<noteq> None \<longrightarrow>
                  (\<exists>g. Upsert index g \<in> set (drop (length (trace w)) (trace w'))
                     \<and> index_upsert e index g = r))
            \<and> (r = None \<longrightarrow>
                  (\<exists>groups. trace w' = trace w @ map (Upsert index) groups
                     \<and> upserted w' = upserted w @ groups
                     \<and> concat groups = vectors
                     \<and> (\<forall>g \<in> set groups. 0 < length g \<and> length g \<le> batchSize
                                            \<and> index_upsert e index g = None)))"
    using run failing partition by (intro exI[of _ r] exI[of _ ?w'] conjI)
  have second: "(\<forall>g. index_upsert e index g = None) \<longrightarrow>
            (\<exists>w' groups. batchUpserts e index vectors batchSize w = Some (None, w')
               \<and> trace w' = trace w @ map (Upsert index) groups
               \<and> upserted w' = upserted w @ groups
               \<and> concat groups = vectors
               \<and> (\<forall>g \<in> set groups. 0 < length g \<and> length g \<le> batchSize))"
  proof
    assume never: "\<forall>g. index_upsert e index g = None"
    have none: "r = None"
    proof (rule ccontr)
      assume "r \<noteq> None"
      with rej obtain g where "index_upsert e index g = r" by blast
      with never \<open>r \<noteq> None\<close> show False by simp
    qed
    with ok have "rejected = []" and "concat groups = vectors" by simp_all
    with run none len show "\<exists>w' groups. batchUpserts e index vectors batchSize w = Some (None, w')
               \<and> trace w' = trace w @ map (Upsert index) groups
               \<and> upserted w' = upserted w @ groups
               \<and> concat groups = vectors
               \<and> (\<forall>g \<in> set groups. 0 < length g \<and> length g \<le> batchSize)"
      by (intro exI[of _ ?w'] exI[of _ groups]) simp
  qed
  from first second show ?thesis by (rule conjI)
qed

lemma example_batchUpserts:
  "batchUpserts example_env (JStr ''cases'') two_vectors 2 world0 =
     Some (None,
       \<lparr>trace =
          [Upsert (JStr ''cases'')
             [\<lparr>vec_id = JStr ''a'', vec_values = Some [1], vec_metadata = []\<rparr>,
              \<lparr>vec_id = JStr ''b'', vec_values = Some [2], vec_metadata = []\<rparr>],
           Upsert (JStr ''cases'')
             [\<lparr>vec_id = JStr ''c'', vec_values = Some [3], vec_metadata = []\<rparr>]],
        upserted =
          [[\<lparr>vec_id = JStr ''a'', vec_values = Some [1], vec_metadata = []\<rparr>,
            \<lparr>vec_id = JStr ''b'', vec_values = Some [2], vec_metadata = []\<rparr>],
           [\<lparr>vec_id = JStr ''c'', vec_values = Some [3], vec_metadata = []\<rparr>]],
        console = [], uuids = 0\<rparr>)"
  by code_simp

theorem batchUpserts_partitions_witness:
  "(0::nat) < 2
   \<and> (\<forall>g. index_upsert example_env (JStr ''cases'') g = None)
   \<and> (\<exists>w' groups. batchUpserts example_env (JStr ''cases'') two_vectors 2 world0 = Some (None, w')
         \<and> upserted w' = upserted world0 @ groups
         \<and> concat groups = two_vectors)"
proof -
  have p: "(0::nat) < 2" by simp
  have never: "\<forall>g. index_upsert example_env (JStr ''cases'') g = None"
    by (simp add: example_env_def)
  from batchUpserts_partitions[OF p, of example_env "JStr ''cases''" two_vectors world0] never
  have "\<exists>w' groups. batchUpserts example_env (JStr ''cases'') two_vectors 2 world0 = Some (None, w')
               \<and> trace w' = trace world0 @ map (Upsert (JStr ''cases'')) groups
               \<and> upserted w' = upserted world0 @ groups
               \<and> concat groups = two_vectors
               \<and> (\<forall>g \<in> set groups. 0 < length g \<and> length g \<le> 2)"
    by blast
  then have "\<exists>w' groups. batchUpserts example_env (JStr ''cases'') two_vectors 2 world0 = Some (None, w')
         \<and> upserted w' = upserted world0 @ groups
         \<and> concat groups = two_vectors"
    by blast
  with p never show ?thesis by blast
qed

subsection \<open>Documents and chunks without usable text\<close>

text \<open>
  Claim C6. Content is valid exactly when its trimmed text is non-empty and shorter than
  8192. In every run the documents handed to the splitter are the loaded documents with
  valid content, in order, and every vector the store accepts carries the trimmed text of a
  valid chunk that the splitter made from those documents. A document whose trimmed text is
  empty or of length 8192 or more is neither split nor stored.
\<close>

theorem invalid_documents_excluded:
  assumes "handleBootstrapping e targetIndex w = Some (r, w')"
    and "loader_load e = Inr documents"
  shows "(\<forall>c. isValidContent c \<longleftrightarrow> 0 < length (trim c) \<and> length (trim c) < 8192)
       \<and> (\<forall>docs. SplitDocuments docs \<in> set (drop (length (trace w)) (trace w')) \<longrightarrow>
             map pageContent docs = filter isValidContent (map pageContent documents))
       \<and> (\<forall>g \<in> set (drop (length (upserted w)) (upserted w')). \<forall>v \<in> set g.
             \<exists>docs splits s.
               map pageContent docs = filter isValidContent (map pageContent documents)
               \<and> splitDocuments e docs = Inr splits
               \<and> s \<in> set splits
               \<and> isValidContent (pageContent s)
               \<and> get_prop (vec_metadata v) ''pageContent'' = JStr (trim (pageContent s)))"
proof -
  let ?E = "\<lambda>ev. \<forall>docs. ev = SplitDocuments docs \<longrightarrow>
              map pageContent docs = filter isValidContent (map pageContent documents)"
  let ?V = "\<lambda>v. \<exists>docs splits.
              map pageContent docs = filter isValidContent (map pageContent documents)
              \<and> splitDocuments e docs = Inr splits \<and> vector_from splits v"
  have "\<exists>r w'. handleBootstrapping e targetIndex w = Some (r, w') \<and> extends_by ?E ?V w w'"
  proof (rule handleBootstrapping_extends)
    show "\<forall>documents' docs. loader_load e = Inr documents'
            \<and> map pageContent docs = filter isValidContent (map pageContent documents')
            \<longrightarrow> ?E (SplitDocuments docs)"
      using assms(2) by auto
    show "\<forall>documents' docs splits v. loader_load e = Inr documents'
            \<and> map pageContent docs = filter isValidContent (map pageContent documents')
            \<and> splitDocuments e docs = Inr splits \<and> vector_from splits v \<longrightarrow> ?V v"
      using assms(2) by auto
  qed simp_all
  with assms(1) have ext: "extends_by ?E ?V w w'" by simp
  have a: "\<forall>docs. SplitDocuments docs \<in> set (drop (length (trace w)) (trace w')) \<longrightarrow>
             map pageContent docs = filter isValidContent (map pageContent documents)"
    using extends_by_new_events(1)[OF ext] by blast
  have b: "\<forall>g \<in> set (drop (length (upserted w)) (upserted w')). \<forall>v \<in> set g.
             \<exists>docs splits s.
               map pageContent docs = filter isValidContent (map pageContent documents)
               \<and> splitDocuments e docs = Inr splits
               \<and> s \<in> set splits
               \<and> isValidContent (pageContent s)
               \<and> get_prop (vec_metadata v) ''pageContent'' = JStr (trim (pageContent s))"
  proof (intro ballI)
    fix g v
    assume "g \<in> set (drop (length (upserted w)) (upserted w'))" and "v \<in> set g"
    with extends_by_new_events(2)[OF ext] obtain docs splits where
      d: "map pageContent docs = filter isValidContent (map pageContent documents)"
         "splitDocuments e docs = Inr splits" "vector_from splits v"
      by blast
    from d(3) obtain s where
      "s \<in> set splits" "isValidContent (pageContent s)"
      "get_prop (vec_metadata v) ''pageContent'' = JStr (trim (pageContent s))"
      unfolding vector_from_def by blast
    with d(1,2) show "\<exists>docs splits s.
               map pageContent docs = filter isValidContent (map pageContent documents)
               \<and> splitDocuments e docs = Inr splits
               \<and> s \<in> set splits
               \<and> isValidContent (pageContent s)
               \<and> get_prop (vec_metadata v) ''pageContent'' = JStr (trim (pageContent s))"
      by blast
  qed
  from a b isValidContent_iff show ?thesis by blast
qed

lemma example_run:
  "handleBootstrapping example_env (JStr ''cases'') world0 =
     Some (NextResponse_json SuccessBody 200,
       \<lparr>trace =
          [CreateIndexIfNecessary (JStr ''cases''), PineconeIndexHasVectors (JStr ''cases''),
           LoaderLoad, ReadFile,
           SplitDocuments
             [\<lparr>pageContent = '' breach of contract '',
               metadata =
                 [(''source'', JStr ''docs/smith.pdf''),
                  (''pdf'', JObj [(''pageCount'', JNum 3)]),
                  (''loc'', JObj [(''pageNumber'', JNum 1)]),
                  (''filename'', JStr ''smith.pdf''),
                  (''title'', JStr ''Smith v. Jones''),
                  (''pageContent'', JStr '' breach of contract '')]\<rparr>],
           EmbedDocuments [''breach of contract''],
           Upsert (JStr ''cases'')
             [\<lparr>vec_id = JStr ''u'', vec_values = Some [1],
               vec_metadata =
                 [(''source'', JStr ''docs/smith.pdf''),
                  (''filename'', JStr ''smith.pdf''),
                  (''title'', JStr ''Smith v. Jones''),
                  (''pageContent'', JStr ''breach of contract''),
                  (''totalPages'', JNum 3), (''id'', JStr ''u'')]\<rparr>],
           Sleep 1000],
        upserted =
          [[\<lparr>vec_id = JStr ''u'', vec_values = Some [1],
             vec_metadata =
               [(''source'', JStr ''docs/smith.pdf''),
                (''filename'', JStr ''smith.pdf''),
                (''title'', JStr ''Smith v. Jones''),
                (''pageContent'', JStr ''breach of contract''),
                (''totalPages'', JNum 3), (''id'', JStr ''u'')]\<rparr>]],
        console = [], uuids = 1\<rparr>)"
  by code_simp

lemma blank_pdf_invalid: "\<not> isValidContent (pageContent blank_pdf)"
  by code_simp

theorem invalid_documents_excluded_witness:
  "loader_load example_env = Inr [contract_pdf, blank_pdf]
   \<and> \<not> isValidContent (pageContent blank_pdf)
   \<and> (\<exists>r w'. handleBootstrapping example_env (JStr ''cases'') world0 = Some (r, w')
         \<and> (\<exists>docs. SplitDocuments docs \<in> set (trace w')
               \<and> map pageContent docs = filter isValidContent (map pageContent [contract_pdf, blank_pdf])
               \<and> map pageContent docs = [pageContent contract_pdf]))"
proof -
  have l: "loader_load example_env = Inr [contract_pdf, blank_pdf]"
    by (simp add: example_env_def)
  let ?doc = "\<lparr>pageContent = '' breach of contract '',
               metadata =
                 [(''source'', JStr ''docs/smith.pdf''),
                  (''pdf'', JObj [(''pageCount'', JNum 3)]),
                  (''loc'', JObj [(''pageNumber'', JNum 1)]),
                  (''filename'', JStr ''smith.pdf''),
                  (''title'', JStr ''Smith v. Jones''),
                  (''pageContent'', JStr '' breach of contract '')]\<rparr>"
  obtain r w' where run: "handleBootstrapping example_env (JStr ''cases'') world0 = Some (r, w')"
    and mem: "SplitDocuments [?doc] \<in> set (drop (length (trace world0)) (trace w'))"
    using example_run by (simp add: world0_def)
  from invalid_documents_excluded[OF run l] mem
  have m1: "map pageContent [?doc] =
              filter isValidContent (map pageContent [contract_pdf, blank_pdf])"
    by blast
  have m2: "map pageContent [?doc] = [pageContent contract_pdf]"
    by (simp add: contract_pdf_def)
  from mem have mem': "SplitDocuments [?doc] \<in> set (trace w')"
    by (rule in_set_dropD)
  let ?P = "\<lambda>w' docs. SplitDocuments docs \<in> set (trace w')
               \<and> map pageContent docs = filter isValidContent (map pageContent [contract_pdf, blank_pdf])
               \<and> map pageContent docs = [pageContent contract_pdf]"
  have "?P w' [?doc]"
    by (rule conjI[OF mem' conjI[OF m1 m2]])
  then have ex: "\<exists>docs. ?P w' docs" by (rule exI[of "?P w'"])
  let ?Q = "\<lambda>r w'. handleBootstrapping example_env (JStr ''cases'') world0 = Some (r, w')
         \<and> (\<exists>docs. ?P w' docs)"
  have "?Q r w'" by (rule conjI[OF run ex])
  then have "\<exists>w'. ?Q r w'" by (rule exI[of "?Q r"])
  then have "\<exists>r w'. ?Q r w'" by (rule exI[of "\<lambda>r. \<exists>w'. ?Q r w'"])
  then show ?thesis by (rule conjI[OF l conjI[OF blank_pdf_invalid]])
qed

subsection \<open>A batch that fails\<close>

text \<open>
  Claim C8. Take a turn of the main loop whose batch has valid content. If the embeddings
  request fails, or if it succeeds and one of the upserts of the batch then fails, the error
  is caught and logged with the number of the batch, and after the two-second pause the loop
  goes on with the next batch: the failed batch is not taken up again. In the second case
  the groups accepted before the failing one have been requested once each, are in the store
  when the error is caught, and are still there, in the same place, when the loop ends.
\<close>

theorem batch_failure_is_skipped:
  assumes "i < length splits"
    and "validBatch = filter (\<lambda>split. isValidContent (pageContent split))
                        (slice splits i (i + BATCH_SIZE))"
    and "validBatch \<noteq> []"
    and "new_VoyageEmbeddings e = None"
    and "castedBatch = cast_batch e validBatch (uuids w)"
    and "texts = map trim (map pageContent castedBatch)"
    and "w1 = emit (EmbedDocuments texts) (w\<lparr>uuids := uuids w + length validBatch\<rparr>)"
  shows "(embedDocuments e texts = Inl err \<longrightarrow>
            bootstrap_loop e targetIndex splits i w =
              bootstrap_loop e targetIndex splits (i + BATCH_SIZE)
                (emit (Sleep 2000) (console_error (BatchError (i div BATCH_SIZE + 1) err) w1)))
       \<and> (embedDocuments e texts = Inr (Some embeddings) \<and> embeddings \<noteq> []
          \<and> \<not> unset (PINECONE_API_KEY e)
          \<and> batchUpserts e targetIndex (make_vectors castedBatch embeddings) 2 w1 = Some (Some err, w2)
          \<longrightarrow>
            bootstrap_loop e targetIndex splits i w =
              bootstrap_loop e targetIndex splits (i + BATCH_SIZE)
                (emit (Sleep 2000) (console_error (BatchError (i div BATCH_SIZE + 1) err) w2))
            \<and> (\<exists>accepted rejected.
                  trace w2 = trace w1 @ map (Upsert targetIndex) (accepted @ [rejected])
                  \<and> upserted w2 = upserted w1 @ accepted
                  \<and> prefix (concat (accepted @ [rejected])) (make_vectors castedBatch embeddings))
            \<and> (\<exists>r w'. bootstrap_loop e targetIndex splits i w = Some (r, w')
                  \<and> prefix (upserted w2) (upserted w')
                  \<and> prefix (trace w2) (trace w')))"
proof (intro conjI impI)
  assume "embedDocuments e texts = Inl err"
  then have "bootstrap_batch e targetIndex splits i w =
      Some (None, emit (Sleep 2000) (console_error (BatchError (i div BATCH_SIZE + 1) err) w1))"
    using assms by (simp add: bootstrap_batch_def batch_try_def Let_def)
  then show "bootstrap_loop e targetIndex splits i w =
              bootstrap_loop e targetIndex splits (i + BATCH_SIZE)
                (emit (Sleep 2000) (console_error (BatchError (i div BATCH_SIZE + 1) err) w1))"
    using assms(1) by (subst bootstrap_loop.simps) simp
next
  assume a: "embedDocuments e texts = Inr (Some embeddings) \<and> embeddings \<noteq> []
          \<and> \<not> unset (PINECONE_API_KEY e)
          \<and> batchUpserts e targetIndex (make_vectors castedBatch embeddings) 2 w1 = Some (Some err, w2)"
  let ?wf = "emit (Sleep 2000) (console_error (BatchError (i div BATCH_SIZE + 1) err) w2)"
  from a have "batch_try e targetIndex castedBatch (w\<lparr>uuids := uuids w + length validBatch\<rparr>)
                 = Some (Some err, w2)"
    using assms(6,7) by (simp add: batch_try_def Let_def)
  then have "bootstrap_batch e targetIndex splits i w = Some (None, ?wf)"
    using assms(2,3,4,5) by (simp add: bootstrap_batch_def Let_def)
  then show step: "bootstrap_loop e targetIndex splits i w =
              bootstrap_loop e targetIndex splits (i + BATCH_SIZE) ?wf"
    using assms(1) by (subst bootstrap_loop.simps) simp
  have two: "0 < (2::nat)" by simp
  from batchUpserts_from_result[OF two, of e targetIndex "make_vectors castedBatch embeddings" 0 w1]
  obtain r groups rejected where
    res: "batchUpserts_from e targetIndex (make_vectors castedBatch embeddings) 2 0 w1 =
            Some (r, w1\<lparr>trace := trace w1 @ map (Upsert targetIndex) (groups @ rejected),
                        upserted := upserted w1 @ groups\<rparr>)"
    and bad: "r \<noteq> None \<longrightarrow> length rejected = 1"
    and pre: "prefix (concat (groups @ rejected)) (drop 0 (make_vectors castedBatch embeddings))"
    by blast
  from a res have r: "r = Some err"
    and w2: "w2 = w1\<lparr>trace := trace w1 @ map (Upsert targetIndex) (groups @ rejected),
                      upserted := upserted w1 @ groups\<rparr>"
    by (simp_all add: batchUpserts_def)
  from r bad obtain x where x: "rejected = [x]"
    by (cases rejected) auto
  have "trace w2 = trace w1 @ map (Upsert targetIndex) (groups @ [x])
        \<and> upserted w2 = upserted w1 @ groups
        \<and> prefix (concat (groups @ [x])) (make_vectors castedBatch embeddings)"
    using w2 pre x by simp
  then show "\<exists>accepted rejected.
                  trace w2 = trace w1 @ map (Upsert targetIndex) (accepted @ [rejected])
                  \<and> upserted w2 = upserted w1 @ accepted
                  \<and> prefix (concat (accepted @ [rejected])) (make_vectors castedBatch embeddings)"
    by blast
  have "\<exists>r w'. bootstrap_loop e targetIndex splits (i + BATCH_SIZE) ?wf = Some (r, w')
          \<and> extends_by (\<lambda>_. True) (\<lambda>_. True) ?wf w'"
    by (rule bootstrap_loop_extends) simp_all
  then obtain r' w' where
    l: "bootstrap_loop e targetIndex splits (i + BATCH_SIZE) ?wf = Some (r', w')"
    and ext: "extends_by (\<lambda>_. True) (\<lambda>_. True) ?wf w'" by blast
  from extends_by_new_events(4,5)[OF ext]
  have "prefix (trace w2 @ [Sleep 2000]) (trace w')" and "prefix (upserted w2) (upserted w')"
    by (simp_all add: emit_def console_error_def)
  then have "prefix (trace w2) (trace w')" and "prefix (upserted w2) (upserted w')"
    by (auto dest: append_prefixD)
  with l show "\<exists>r w'. bootstrap_loop e targetIndex splits i w = Some (r, w')
                  \<and> prefix (upserted w2) (upserted w')
                  \<and> prefix (trace w2) (trace w')"
    unfolding step by blast
qed

lemma three_chunks_valid:
  "three_chunks = filter (\<lambda>split. isValidContent (pageContent split))
                    (slice three_chunks 0 (0 + BATCH_SIZE))"
  by code_simp

lemma three_casted_flaky: "three_casted = cast_batch flaky_env three_chunks (uuids world0)"
  by code_simp

lemma three_casted_down: "three_casted = cast_batch embed_down_env three_chunks (uuids world0)"
  by code_simp

lemma three_texts: "[''one'', ''two'', ''three''] = map trim (map pageContent three_casted)"
  by code_simp

lemma three_embedded_eq:
  "three_embedded =
     emit (EmbedDocuments [''one'', ''two'', ''three''])
       (world0\<lparr>uuids := uuids world0 + length three_chunks\<rparr>)"
  by code_simp

lemma flaky_upsert:
  "batchUpserts flaky_env (JStr ''cases'') (make_vectors three_casted [[1], [1], [1]]) 2
     three_embedded = Some (Some (JsError ''upsert rejected'' None), three_upserting)"
  by code_simp

theorem batch_failure_is_skipped_witness:
  "embedDocuments embed_down_env [''one'', ''two'', ''three''] =
     Inl (JsError ''embeddings unavailable'' None)
   \<and> bootstrap_loop embed_down_env (JStr ''cases'') three_chunks 0 world0 =
       bootstrap_loop embed_down_env (JStr ''cases'') three_chunks (0 + BATCH_SIZE)
         (emit (Sleep 2000)
            (console_error (BatchError (0 div BATCH_SIZE + 1) (JsError ''embeddings unavailable'' None))
               three_embedded))
   \<and> embedDocuments flaky_env [''one'', ''two'', ''three''] = Inr (Some [[1], [1], [1]])
   \<and> batchUpserts flaky_env (JStr ''cases'') (make_vectors three_casted [[1], [1], [1]]) 2
       three_embedded = Some (Some (JsError ''upsert rejected'' None), three_upserting)
   \<and> bootstrap_loop flaky_env (JStr ''cases'') three_chunks 0 world0 =
       bootstrap_loop flaky_env (JStr ''cases'') three_chunks (0 + BATCH_SIZE)
         (emit (Sleep 2000)
            (console_error (BatchError (0 div BATCH_SIZE + 1) (JsError ''upsert rejected'' None))
               three_upserting))
   \<and> (\<exists>r w'. bootstrap_loop flaky_env (JStr ''cases'') three_chunks 0 world0 = Some (r, w')
         \<and> prefix (upserted three_upserting) (upserted w'))"
proof -
  have len: "0 < length three_chunks" by (simp add: three_chunks_def)
  have ne: "three_chunks \<noteq> []" by (simp add: three_chunks_def)
  have ctor1: "new_VoyageEmbeddings embed_down_env = None"
    by (simp add: embed_down_env_def example_env_def)
  have ctor2: "new_VoyageEmbeddings flaky_env = None"
    by (simp add: flaky_env_def example_env_def)
  have down: "embedDocuments embed_down_env [''one'', ''two'', ''three''] =
                Inl (JsError ''embeddings unavailable'' None)"
    by (simp add: embed_down_env_def)
  have up: "embedDocuments flaky_env [''one'', ''two'', ''three''] = Inr (Some [[1], [1], [1]])"
    by (simp add: flaky_env_def example_env_def)
  have key: "\<not> unset (PINECONE_API_KEY flaky_env)"
    by (simp add: flaky_env_def example_env_def unset_def)
  have nonempty: "[[1], [1], [1]] \<noteq> ([] :: embedding list)" by simp
  note first =
    batch_failure_is_skipped[where err = "JsError ''embeddings unavailable'' None"
      and targetIndex = "JStr ''cases''",
      OF len three_chunks_valid ne ctor1 three_casted_down three_texts three_embedded_eq]
  note second =
    batch_failure_is_skipped[where err = "JsError ''upsert rejected'' None"
      and targetIndex = "JStr ''cases''" and embeddings = "[[1], [1], [1]]"
      and ?w2.0 = three_upserting,
      OF len three_chunks_valid ne ctor2 three_casted_flaky three_texts three_embedded_eq]
  from first down have a:
    "bootstrap_loop embed_down_env (JStr ''cases'') three_chunks 0 world0 =
       bootstrap_loop embed_down_env (JStr ''cases'') three_chunks (0 + BATCH_SIZE)
         (emit (Sleep 2000)
            (console_error (BatchError (0 div BATCH_SIZE + 1) (JsError ''embeddings unavailable'' None))
               three_embedded))"
    by blast
  from second up nonempty key flaky_upsert have b:
    "bootstrap_loop flaky_env (JStr ''cases'') three_chunks 0 world0 =
       bootstrap_loop flaky_env (JStr ''cases'') three_chunks (0 + BATCH_SIZE)
         (emit (Sleep 2000)
            (console_error (BatchError (0 div BATCH_SIZE + 1) (JsError ''upsert rejected'' None))
               three_upserting))"
    and c: "\<exists>r w'. bootstrap_loop flaky_env (JStr ''cases'') three_chunks 0 world0 = Some (r, w')
         \<and> prefix (upserted three_upserting) (upserted w')
         \<and> prefix (trace three_upserting) (trace w')"
    by blast+
  from c have c': "\<exists>r w'. bootstrap_loop flaky_env (JStr ''cases'') three_chunks 0 world0 = Some (r, w')
         \<and> prefix (upserted three_upserting) (upserted w')"
    by blast
  show ?thesis
    by (rule conjI[OF down conjI[OF a conjI[OF up conjI[OF flaky_upsert conjI[OF b c']]]]])
qed

end
